theory Spec2Isabelle
  imports Complex_Main
begin

section \<open>Errors\<close>

text \<open>
  Every way in which the C++ code can leave its defined behaviour, or throw, is a value:
  \<^item> \<open>RangeError\<close>: the \<open>std::range_error\<close> thrown by \<open>Graph::insertEdge\<close>;
  \<^item> \<open>OutOfBounds\<close>: an index outside a vector (\<open>operator[]\<close>, an iterator past the end);
  \<^item> \<open>UseAfterFree\<close>: a pointer dereferenced after \<open>delete\<close>;
  \<^item> \<open>Uninitialised\<close>: a local variable read before any assignment;
  \<^item> \<open>NullDeref\<close>: a null pointer dereferenced.
\<close>

datatype error = RangeError | OutOfBounds | UseAfterFree | Uninitialised | NullDeref

section \<open>The directed-graph substrate (assemblyPlanner/Source/graph.hpp)\<close>

subsection \<open>Objects and the heap\<close>

text \<open>
  The graph owns \<open>Node\<close> and \<open>Edge\<close> objects through raw pointers. A pointer is an
  address; each of the two arenas is a list indexed by address, a cell holding
  \<open>Some\<close> object while it is allocated and \<open>None\<close> after \<open>delete\<close>. \<open>new\<close> takes
  the next cell, so an address is never handed out twice.

  The C++ members \<open>nodes_\<close> and \<open>edges_\<close> are the fields \<open>nodes\<close> and \<open>edges\<close>
  (a name cannot end in an underscore here); \<open>id_\<close> is \<open>node_id\<close>.
\<close>

type_synonym addr = nat

record 'n Node =
  node_id :: nat
  node_data :: 'n
  parents :: "addr list"
  children :: "addr list"

record 'e Edge =
  edge_data :: 'e
  source :: addr
  destination :: addr

text \<open>
  \<open>nodes_\<close> is a \<open>std::unordered_map<std::size_t, Node*>\<close>: an association list with
  distinct keys. Nothing in this class iterates over it, so its order is never observed.
\<close>

record ('n, 'e) Graph =
  nodes :: "(nat \<times> addr) list"
  edges :: "addr list"
  node_heap :: "'n Node option list"
  edge_heap :: "'e Edge option list"

definition empty_graph :: "('n, 'e) Graph" where
  "empty_graph = \<lparr>nodes = [], edges = [], node_heap = [], edge_heap = []\<rparr>"

definition deref :: "'a option list \<Rightarrow> addr \<Rightarrow> 'a option" where
  "deref h a = (if a < length h then h ! a else None)"

definition umap_find :: "(nat \<times> 'v) list \<Rightarrow> nat \<Rightarrow> 'v option" where
  "umap_find m k = map_of m k"

text \<open>\<open>std::unordered_map::insert\<close> keeps the old binding when the key is present.\<close>

definition umap_insert :: "nat \<Rightarrow> 'v \<Rightarrow> (nat \<times> 'v) list \<Rightarrow> (nat \<times> 'v) list" where
  "umap_insert k v m = (case map_of m k of None \<Rightarrow> m @ [(k, v)] | Some _ \<Rightarrow> m)"

definition umap_erase :: "nat \<Rightarrow> (nat \<times> 'v) list \<Rightarrow> (nat \<times> 'v) list" where
  "umap_erase k m = filter (\<lambda>kv. fst kv \<noteq> k) m"

definition numberOfNodes :: "('n, 'e) Graph \<Rightarrow> nat" where
  "numberOfNodes g = length (nodes g)"

definition numberOfEdges :: "('n, 'e) Graph \<Rightarrow> nat" where
  "numberOfEdges g = length (edges g)"

subsection \<open>The members of Node and Edge that the graph calls\<close>

text \<open>
  Modelled from the spec: node.hpp, which declares \<open>Node\<close> and \<open>Edge\<close>, is not among the
  sources. The spec's data model says a node carries its payload, a list of incoming
  edges and a list of outgoing edges, that these lists are exactly the edges whose
  destination or source is that node, and that an edge carries its payload and its two
  end nodes. So \<open>addSuccessor\<close> and \<open>addPredecessor\<close> append the edge to the list, and
  \<open>removeSuccessor id\<close> (\<open>removePredecessor id\<close>) takes out of the list the first edge
  whose destination (source) is the node called \<open>id\<close>.
\<close>

definition addSuccessor :: "addr \<Rightarrow> addr \<Rightarrow> ('n, 'e) Graph \<Rightarrow> error + ('n, 'e) Graph" where
  "addSuccessor n e g =
     (case deref (node_heap g) n of
        None \<Rightarrow> Inl UseAfterFree
      | Some nd \<Rightarrow> Inr (g\<lparr>node_heap := (node_heap g)[n := Some (nd\<lparr>children := children nd @ [e]\<rparr>)]\<rparr>))"

definition addPredecessor :: "addr \<Rightarrow> addr \<Rightarrow> ('n, 'e) Graph \<Rightarrow> error + ('n, 'e) Graph" where
  "addPredecessor n e g =
     (case deref (node_heap g) n of
        None \<Rightarrow> Inl UseAfterFree
      | Some nd \<Rightarrow> Inr (g\<lparr>node_heap := (node_heap g)[n := Some (nd\<lparr>parents := parents nd @ [e]\<rparr>)]\<rparr>))"

definition end_id :: "('n, 'e) Graph \<Rightarrow> ('e Edge \<Rightarrow> addr) \<Rightarrow> addr \<Rightarrow> nat option" where
  "end_id g sel e =
     (case deref (edge_heap g) e of
        None \<Rightarrow> None
      | Some ed \<Rightarrow> map_option node_id (deref (node_heap g) (sel ed)))"

fun remove_first :: "('a \<Rightarrow> bool) \<Rightarrow> 'a list \<Rightarrow> 'a list" where
  "remove_first P [] = []"
| "remove_first P (x # xs) = (if P x then xs else x # remove_first P xs)"

definition removeSuccessor :: "nat \<Rightarrow> addr \<Rightarrow> ('n, 'e) Graph \<Rightarrow> error + ('n, 'e) Graph" where
  "removeSuccessor nodeId n g =
     (case deref (node_heap g) n of
        None \<Rightarrow> Inl UseAfterFree
      | Some nd \<Rightarrow> Inr (g\<lparr>node_heap := (node_heap g)
          [n := Some (nd\<lparr>children :=
             remove_first (\<lambda>e. end_id g destination e = Some nodeId) (children nd)\<rparr>)]\<rparr>))"

definition removePredecessor :: "nat \<Rightarrow> addr \<Rightarrow> ('n, 'e) Graph \<Rightarrow> error + ('n, 'e) Graph" where
  "removePredecessor nodeId n g =
     (case deref (node_heap g) n of
        None \<Rightarrow> Inl UseAfterFree
      | Some nd \<Rightarrow> Inr (g\<lparr>node_heap := (node_heap g)
          [n := Some (nd\<lparr>parents :=
             remove_first (\<lambda>e. end_id g source e = Some nodeId) (parents nd)\<rparr>)]\<rparr>))"

subsection \<open>Insertion\<close>

text \<open>
  \<open>insertNode\<close> allocates the node first and only then asks the map to insert it; when
  the identifier is bound already, the map refuses and the new object is left on the heap,
  unreachable.
\<close>

definition insertNode :: "nat \<Rightarrow> 'n \<Rightarrow> ('n, 'e) Graph \<Rightarrow> nat \<times> ('n, 'e) Graph" where
  "insertNode nodeId d g =
     (let tempNode = length (node_heap g);
          g1 = g\<lparr>node_heap := node_heap g @
                 [Some \<lparr>node_id = nodeId, node_data = d, parents = [], children = []\<rparr>]\<rparr>;
          g2 = g1\<lparr>nodes := umap_insert nodeId tempNode (nodes g1)\<rparr>
      in (length (nodes g2) - 1, g2))"

definition insertEdge ::
  "'e \<Rightarrow> nat \<Rightarrow> nat \<Rightarrow> ('n, 'e) Graph \<Rightarrow> error + (nat \<times> ('n, 'e) Graph)" where
  "insertEdge d srcNodeId destNodeId g =
     (case umap_find (nodes g) srcNodeId of
        None \<Rightarrow> Inl RangeError
      | Some srcNode \<Rightarrow>
     (case umap_find (nodes g) destNodeId of
        None \<Rightarrow> Inl RangeError
      | Some destNode \<Rightarrow>
     (let edge = length (edge_heap g);
          g1 = g\<lparr>edge_heap := edge_heap g @
                 [Some \<lparr>edge_data = d, source = srcNode, destination = destNode\<rparr>],
                edges := edges g @ [edge]\<rparr>
      in case addSuccessor srcNode edge g1 of
           Inl err \<Rightarrow> Inl err
         | Inr g2 \<Rightarrow>
        (case addPredecessor destNode edge g2 of
           Inl err \<Rightarrow> Inl err
         | Inr g3 \<Rightarrow> Inr (length (edges g3), g3)))))"

subsection \<open>Search\<close>

text \<open>
  The scan of \<open>findEdge\<close> over \<open>edges_\<close>, from index \<open>j\<close> on. \<open>edge_index\<close> is declared
  without a value and assigned only on a hit: \<open>None\<close> is the indeterminate value.
\<close>

fun findEdge_scan ::
  "'e Edge option list \<Rightarrow> addr \<Rightarrow> addr \<Rightarrow> addr list \<Rightarrow> nat \<Rightarrow> error + (bool \<times> nat option)" where
  "findEdge_scan h s d [] j = Inr (False, None)"
| "findEdge_scan h s d (e # es) j =
     (case deref h e of
        None \<Rightarrow> Inl UseAfterFree
      | Some ed \<Rightarrow>
          if source ed = s \<and> destination ed = d then Inr (True, Some j)
          else findEdge_scan h s d es (Suc j))"

definition findEdge ::
  "nat \<Rightarrow> nat \<Rightarrow> ('n, 'e) Graph \<Rightarrow> error + (bool \<times> nat option)" where
  "findEdge nodeSrc nodeDst g =
     (case umap_find (nodes g) nodeSrc of
        None \<Rightarrow> Inr (False, Some 0)
      | Some s \<Rightarrow>
     (case umap_find (nodes g) nodeDst of
        None \<Rightarrow> Inr (False, Some 0)
      | Some d \<Rightarrow> findEdge_scan (edge_heap g) s d (edges g) 0))"

fun findEdgeIndexHelper_scan :: "addr \<Rightarrow> addr list \<Rightarrow> nat \<Rightarrow> nat option" where
  "findEdgeIndexHelper_scan edge [] j = None"
| "findEdgeIndexHelper_scan edge (e # es) j =
     (if e = edge then Some j else findEdgeIndexHelper_scan edge es (Suc j))"

definition findEdgeIndexHelper :: "addr \<Rightarrow> ('n, 'e) Graph \<Rightarrow> nat option" where
  "findEdgeIndexHelper edge g = findEdgeIndexHelper_scan edge (edges g) 0"

subsection \<open>Erasing a node\<close>

text \<open>\<open>edges_.erase(edges_.begin() + i)\<close>; the iterator must point at an element.\<close>

definition vector_erase :: "nat \<Rightarrow> 'a list \<Rightarrow> error + 'a list" where
  "vector_erase i xs = (if i < length xs then Inr (take i xs @ drop (Suc i) xs) else Inl OutOfBounds)"

text \<open>
  One round of either loop of \<open>eraseNode\<close>: read the far end of the edge, tell that node
  to forget the erased node, look the edge up in \<open>edges_\<close>, erase it there, delete it.
  \<open>sel\<close> and \<open>forget\<close> are \<open>getSource\<close> and \<open>removeSuccessor\<close> in the first loop,
  \<open>getDestination\<close> and \<open>removePredecessor\<close> in the second.
\<close>

definition erase_incident ::
  "('e Edge \<Rightarrow> addr) \<Rightarrow> (nat \<Rightarrow> addr \<Rightarrow> ('n, 'e) Graph \<Rightarrow> error + ('n, 'e) Graph) \<Rightarrow>
   nat \<Rightarrow> addr \<Rightarrow> ('n, 'e) Graph \<Rightarrow> error + ('n, 'e) Graph" where
  "erase_incident sel forget nodeId edge_to_remove g =
     (case deref (edge_heap g) edge_to_remove of
        None \<Rightarrow> Inl UseAfterFree
      | Some ed \<Rightarrow>
     (case forget nodeId (sel ed) g of
        Inl err \<Rightarrow> Inl err
      | Inr g1 \<Rightarrow>
     (case findEdgeIndexHelper edge_to_remove g1 of
        None \<Rightarrow> Inl Uninitialised
      | Some temp_edge_index \<Rightarrow>
     (case vector_erase temp_edge_index (edges g1) of
        Inl err \<Rightarrow> Inl err
      | Inr es \<Rightarrow>
          Inr (g1\<lparr>edges := es, edge_heap := (edge_heap g1)[edge_to_remove := None]\<rparr>)))))"

fun erase_loop ::
  "('e Edge \<Rightarrow> addr) \<Rightarrow> (nat \<Rightarrow> addr \<Rightarrow> ('n, 'e) Graph \<Rightarrow> error + ('n, 'e) Graph) \<Rightarrow>
   nat \<Rightarrow> addr list \<Rightarrow> ('n, 'e) Graph \<Rightarrow> error + ('n, 'e) Graph" where
  "erase_loop sel forget nodeId [] g = Inr g"
| "erase_loop sel forget nodeId (e # es) g =
     (case erase_incident sel forget nodeId e g of
        Inl err \<Rightarrow> Inl err
      | Inr g1 \<Rightarrow> erase_loop sel forget nodeId es g1)"

definition eraseNode :: "nat \<Rightarrow> ('n, 'e) Graph \<Rightarrow> error + (bool \<times> ('n, 'e) Graph)" where
  "eraseNode nodeId g =
     (case umap_find (nodes g) nodeId of
        None \<Rightarrow> Inr (False, g)
      | Some node_to_remove \<Rightarrow>
     (let g1 = g\<lparr>nodes := umap_erase nodeId (nodes g)\<rparr> in
      case deref (node_heap g1) node_to_remove of
        None \<Rightarrow> Inl UseAfterFree
      | Some nd \<Rightarrow>
     (let predecessors = parents nd; successors = children nd in
      case erase_loop source removeSuccessor nodeId predecessors g1 of
        Inl err \<Rightarrow> Inl err
      | Inr g2 \<Rightarrow>
     (case erase_loop destination removePredecessor nodeId successors g2 of
        Inl err \<Rightarrow> Inl err
      | Inr g3 \<Rightarrow>
          Inr (True, g3\<lparr>node_heap := (node_heap g3)[node_to_remove := None]\<rparr>)))))"

subsection \<open>Example graphs\<close>

definition two_nodes :: "(string, unit) Graph" where
  "two_nodes = snd (insertNode 2 ''b'' (snd (insertNode 1 ''a'' empty_graph)))"

definition one_node :: "(string, unit) Graph" where
  "one_node = snd (insertNode 1 ''a'' empty_graph)"

section \<open>The planner's data (types.hpp)\<close>

text \<open>
  The values read from a cost map are real numbers here: rounding is not modelled, and
  the two special values a \<open>double\<close> can hold beyond the reals appear only where the
  text says so.

  The scores of the search are \<open>double\<close>s with their special values: a finite number,
  either infinity, or not-a-number. Sum, product and comparison follow IEEE 754 on the
  special values: not-a-number absorbs, an infinity times zero and the sum of opposite
  infinities are not-a-number, an infinity otherwise keeps or flips its sign with the sign
  of the other factor, and every comparison with not-a-number is false. On finite numbers
  the operations are those of the reals: neither rounding nor overflow is modelled, nor
  the sign of zero.
\<close>

datatype double = Finite real | PosInf | NegInf | NaN

fun dmul :: "double \<Rightarrow> double \<Rightarrow> double" where
  "dmul NaN y = NaN"
| "dmul x NaN = NaN"
| "dmul (Finite a) (Finite b) = Finite (a * b)"
| "dmul (Finite a) PosInf = (if a = 0 then NaN else if 0 < a then PosInf else NegInf)"
| "dmul (Finite a) NegInf = (if a = 0 then NaN else if 0 < a then NegInf else PosInf)"
| "dmul PosInf (Finite b) = (if b = 0 then NaN else if 0 < b then PosInf else NegInf)"
| "dmul NegInf (Finite b) = (if b = 0 then NaN else if 0 < b then NegInf else PosInf)"
| "dmul PosInf PosInf = PosInf"
| "dmul PosInf NegInf = NegInf"
| "dmul NegInf PosInf = NegInf"
| "dmul NegInf NegInf = PosInf"

fun dadd :: "double \<Rightarrow> double \<Rightarrow> double" where
  "dadd NaN y = NaN"
| "dadd x NaN = NaN"
| "dadd (Finite a) (Finite b) = Finite (a + b)"
| "dadd PosInf NegInf = NaN"
| "dadd NegInf PosInf = NaN"
| "dadd PosInf y = PosInf"
| "dadd NegInf y = NegInf"
| "dadd (Finite a) y = y"

fun dless :: "double \<Rightarrow> double \<Rightarrow> bool" where
  "dless NaN y = False"
| "dless x NaN = False"
| "dless (Finite a) (Finite b) = (a < b)"
| "dless x NegInf = False"
| "dless PosInf y = False"
| "dless NegInf y = True"
| "dless (Finite a) PosInf = True"

datatype NodeType = ACTION | SUBASSEMBLY | INTERACTION | INTERASSEMBLY

record AssemblyData =
  node_type :: NodeType
  name :: string
  assigned_agent :: string
  interaction_prev :: nat
  interaction_or :: nat
  interaction_next :: nat

record AgentActionAssignment =
  agent :: string
  action :: string
  action_node_id :: nat

record SearchData =
  marked :: bool
  g_score :: double
  f_score :: double
  h_score :: double
  minimum_cost_action :: double
  subassemblies :: "(string \<times> nat) list"
  actions :: "(string \<times> nat) list"

record EdgeData =
  planned_assignments :: "AgentActionAssignment list"
  cost :: double

section \<open>The graph interface the planner uses\<close>

text \<open>
  Modelled from the spec: the planner (io.hpp, astar.hpp, combinator.hpp) is written
  against a \<open>Graph<NodeData, EdgeData>\<close> with \<open>nodes()\<close>, \<open>getNode\<close>,
  \<open>getNodeData\<close>, \<open>successorNodes\<close>, \<open>numberOfSuccessors\<close>, \<open>hasSuccessor\<close>,
  \<open>getSuccessorNodes\<close>, \<open>getPredecessorNodes\<close> and \<open>getSuccessorEdges\<close>; the header
  that declares it is not among the sources. Following the spec's data model, such a graph
  is its nodes (each an identifier and a payload) and its ordered collection of edges (each
  a source identifier, a destination identifier and a payload), and a node's successor
  (predecessor) list is exactly the edges whose source (destination) is that node, in the
  order of the collection.
\<close>

record 'd GNode =
  n_id :: nat
  n_data :: 'd

record 'e GEdge =
  e_source :: nat
  e_destination :: nat
  e_data :: 'e

record ('d, 'e) DiGraph =
  dg_nodes :: "'d GNode list"
  dg_edges :: "'e GEdge list"

definition getNode :: "('d, 'e) DiGraph \<Rightarrow> nat \<Rightarrow> 'd GNode option" where
  "getNode g i = find (\<lambda>n. n_id n = i) (dg_nodes g)"

definition getNodeData :: "('d, 'e) DiGraph \<Rightarrow> nat \<Rightarrow> 'd option" where
  "getNodeData g i = map_option n_data (getNode g i)"

definition getSuccessorEdges :: "('d, 'e) DiGraph \<Rightarrow> nat \<Rightarrow> 'e GEdge list" where
  "getSuccessorEdges g i = filter (\<lambda>e. e_source e = i) (dg_edges g)"

definition getPredecessorEdges :: "('d, 'e) DiGraph \<Rightarrow> nat \<Rightarrow> 'e GEdge list" where
  "getPredecessorEdges g i = filter (\<lambda>e. e_destination e = i) (dg_edges g)"

definition successorNodes :: "('d, 'e) DiGraph \<Rightarrow> nat \<Rightarrow> nat list" where
  "successorNodes g i = map e_destination (getSuccessorEdges g i)"

definition predecessorNodes :: "('d, 'e) DiGraph \<Rightarrow> nat \<Rightarrow> nat list" where
  "predecessorNodes g i = map e_source (getPredecessorEdges g i)"

definition numberOfSuccessors :: "('d, 'e) DiGraph \<Rightarrow> nat \<Rightarrow> nat" where
  "numberOfSuccessors g i = length (successorNodes g i)"

definition hasSuccessor :: "('d, 'e) DiGraph \<Rightarrow> nat \<Rightarrow> bool" where
  "hasSuccessor g i = (successorNodes g i \<noteq> [])"

definition getSuccessorNodes :: "('d, 'e) DiGraph \<Rightarrow> nat \<Rightarrow> 'd GNode list" where
  "getSuccessorNodes g i = List.map_filter (getNode g) (successorNodes g i)"

definition getPredecessorNodes :: "('d, 'e) DiGraph \<Rightarrow> nat \<Rightarrow> 'd GNode list" where
  "getPredecessorNodes g i = List.map_filter (getNode g) (predecessorNodes g i)"

section \<open>Validation of the assembly graph (io.hpp)\<close>

text \<open>
  The two inner loops of \<open>IoXml::validate_graph\<close> make the same two tests on every
  neighbour, so one function serves both: \<open>Some r\<close> when the loop returns \<open>r\<close> from
  \<open>validate_graph\<close>, \<open>None\<close> when it runs to its end.
\<close>

fun check_neighbours :: "AssemblyData GNode \<Rightarrow> AssemblyData GNode list \<Rightarrow> int option" where
  "check_neighbours node [] = None"
| "check_neighbours node (p # ps) =
     (if node_type (n_data node) = ACTION \<and> node_type (n_data p) \<noteq> SUBASSEMBLY then Some (- 1)
      else if node_type (n_data node) = SUBASSEMBLY \<and> node_type (n_data p) \<noteq> ACTION then Some (- 1)
      else check_neighbours node ps)"

fun validate_nodes ::
  "(AssemblyData, 'e) DiGraph \<Rightarrow> AssemblyData GNode list \<Rightarrow> int" where
  "validate_nodes g [] = 0"
| "validate_nodes g (node # rest) =
     (case check_neighbours node (getPredecessorNodes g (n_id node)) of
        Some r \<Rightarrow> r
      | None \<Rightarrow>
     (case check_neighbours node (getSuccessorNodes g (n_id node)) of
        Some r \<Rightarrow> r
      | None \<Rightarrow> validate_nodes g rest))"

definition validate_graph :: "(AssemblyData, 'e) DiGraph \<Rightarrow> int" where
  "validate_graph g = validate_nodes g (dg_nodes g)"

text \<open>An edge alternates when it runs SUBASSEMBLY to ACTION or ACTION to SUBASSEMBLY.\<close>

definition alternates :: "NodeType \<Rightarrow> NodeType \<Rightarrow> bool" where
  "alternates s d = (s = SUBASSEMBLY \<and> d = ACTION \<or> s = ACTION \<and> d = SUBASSEMBLY)"

definition and_or_kind :: "NodeType \<Rightarrow> bool" where
  "and_or_kind t = (t = ACTION \<or> t = SUBASSEMBLY)"

definition mk_node :: "nat \<Rightarrow> NodeType \<Rightarrow> string \<Rightarrow> AssemblyData GNode" where
  "mk_node i t nm = \<lparr>n_id = i, n_data = \<lparr>node_type = t, name = nm, assigned_agent = [],
     interaction_prev = 0, interaction_or = 0, interaction_next = 0\<rparr>\<rparr>"

definition mk_edge :: "nat \<Rightarrow> nat \<Rightarrow> unit GEdge" where
  "mk_edge s d = \<lparr>e_source = s, e_destination = d, e_data = ()\<rparr>"

definition interaction_pair :: "(AssemblyData, unit) DiGraph" where
  "interaction_pair = \<lparr>dg_nodes = [mk_node 1 INTERACTION ''i1'', mk_node 2 INTERACTION ''i2''],
     dg_edges = [mk_edge 1 2]\<rparr>"

definition and_or_pair :: "(AssemblyData, unit) DiGraph" where
  "and_or_pair = \<lparr>dg_nodes = [mk_node 1 SUBASSEMBLY ''ab'', mk_node 2 ACTION ''join''],
     dg_edges = [mk_edge 1 2]\<rparr>"

section \<open>The heuristic of the A* search (astar.hpp)\<close>

text \<open>
  The loop of \<open>calc_hscore\<close> over the node's \<open>subassemblies\<close> map, with the running
  maximum. \<open>getNode\<close> on an identifier that the assembly graph does not hold gives no node
  to read the name from.
\<close>

fun max_length_loop ::
  "(AssemblyData, 'e) DiGraph \<Rightarrow> (string \<times> nat) list \<Rightarrow> nat \<Rightarrow> error + nat" where
  "max_length_loop assembly [] maximum_length_subassembly = Inr maximum_length_subassembly"
| "max_length_loop assembly (x # xs) maximum_length_subassembly =
     (case getNode assembly (snd x) of
        None \<Rightarrow> Inl NullDeref
      | Some node \<Rightarrow>
          max_length_loop assembly xs
            (if length (name (n_data node)) > maximum_length_subassembly
             then length (name (n_data node)) else maximum_length_subassembly))"

text \<open>
  \<open>log2f\<close> is the C library's single-precision base-2 logarithm, applied to the length;
  it is a parameter of the model, with a \<open>double\<close> for its result. The product with
  \<open>minimum_cost_action\<close> is the product of \<open>double\<close>s.
\<close>

definition calc_hscore ::
  "(nat \<Rightarrow> double) \<Rightarrow> (AssemblyData, 'e) DiGraph \<Rightarrow> SearchData GNode \<Rightarrow> error + double" where
  "calc_hscore log2f assembly current =
     (case max_length_loop assembly (subassemblies (n_data current)) 0 of
        Inl err \<Rightarrow> Inl err
      | Inr maximum_length_subassembly \<Rightarrow>
          Inr (dmul (log2f maximum_length_subassembly) (minimum_cost_action (n_data current))))"

definition calc_fscore :: "SearchData GNode \<Rightarrow> double" where
  "calc_fscore current = dadd (g_score (n_data current)) (h_score (n_data current))"

text \<open>
  The library's \<open>log2f\<close>: minus infinity at 0 (the length of an empty name), and the
  base-2 logarithm at every other length, its rounding to single precision left out.
\<close>

definition log2f_libm :: "nat \<Rightarrow> double" where
  "log2f_libm n = (if n = 0 then NegInf else Finite (log 2 (real n)))"

text \<open>The length of the name of the assembly-graph node with a given identifier.\<close>

definition name_length :: "(AssemblyData, 'e) DiGraph \<Rightarrow> nat \<Rightarrow> nat" where
  "name_length assembly i = (case getNode assembly i of None \<Rightarrow> 0 | Some node \<Rightarrow> length (name (n_data node)))"

definition set_h_score :: "double \<Rightarrow> SearchData GNode \<Rightarrow> SearchData GNode" where
  "set_h_score h n = n\<lparr>n_data := (n_data n)\<lparr>h_score := h\<rparr>\<rparr>"

definition set_f_score :: "double \<Rightarrow> SearchData GNode \<Rightarrow> SearchData GNode" where
  "set_f_score f n = n\<lparr>n_data := (n_data n)\<lparr>f_score := f\<rparr>\<rparr>"

definition set_g_score :: "double \<Rightarrow> SearchData GNode \<Rightarrow> SearchData GNode" where
  "set_g_score v n = n\<lparr>n_data := (n_data n)\<lparr>g_score := v\<rparr>\<rparr>"

definition mk_state :: "nat \<Rightarrow> real \<Rightarrow> real \<Rightarrow> (string \<times> nat) list \<Rightarrow> SearchData GNode" where
  "mk_state i g m subs = \<lparr>n_id = i, n_data = \<lparr>marked = False, g_score = Finite g,
     f_score = Finite 0, h_score = Finite 0, minimum_cost_action = Finite m,
     subassemblies = subs, actions = []\<rparr>\<rparr>"

text \<open>
  The two assignments \<open>search\<close> makes to a node it is about to push:
  \<open>h_score = calc_hscore(node)\<close>, then \<open>f_score = calc_fscore(node)\<close>.
\<close>

definition update_scores ::
  "(nat \<Rightarrow> double) \<Rightarrow> (AssemblyData, 'e) DiGraph \<Rightarrow> SearchData GNode \<Rightarrow> error + SearchData GNode" where
  "update_scores log2f assembly n =
     (case calc_hscore log2f assembly n of
        Inl err \<Rightarrow> Inl err
      | Inr h \<Rightarrow> (let n1 = set_h_score h n in Inr (set_f_score (calc_fscore n1) n1)))"

definition max_name_length :: "(AssemblyData, 'e) DiGraph \<Rightarrow> (string \<times> nat) list \<Rightarrow> nat" where
  "max_name_length assembly subs = Max ((\<lambda>x. name_length assembly (snd x)) ` set subs)"

definition abc_assembly :: "(AssemblyData, unit) DiGraph" where
  "abc_assembly = \<lparr>dg_nodes = [mk_node 1 SUBASSEMBLY ''abcd'', mk_node 2 SUBASSEMBLY ''ef''],
     dg_edges = []\<rparr>"

definition unnamed_assembly :: "(AssemblyData, unit) DiGraph" where
  "unnamed_assembly = \<lparr>dg_nodes = [mk_node 1 SUBASSEMBLY ''''], dg_edges = []\<rparr>"

section \<open>Reading cost maps (io.hpp)\<close>

text \<open>
  A \<open><cost>\<close> element as \<open>parse_costmap\<close> sees it: its \<open>agent\<close> and \<open>value\<close>
  attributes, each of which may be missing.
\<close>

record cost_element =
  agent_attr :: "string option"
  value_attr :: "string option"

text \<open>\<open>std::tolower\<close> on an \<open>unsigned char\<close> in the C locale.\<close>

definition tolower :: "char \<Rightarrow> char" where
  "tolower c = (if 65 \<le> (of_char c :: nat) \<and> (of_char c :: nat) \<le> 90
                then char_of ((of_char c :: nat) + 32) else c)"

definition INT_MAX :: real where
  "INT_MAX = 2147483647"

text \<open>
  \<open>is_float\<close> (types.hpp) extracts a \<open>float\<close> from the string with the stream operator
  and accepts when the whole string was read and the extraction did not fail;
  \<open>std::stod\<close> converts the string. Both are the C++ library's number reader and are
  parameters of the model. The cost map is a \<open>std::unordered_map<std::string, double>\<close>,
  written with \<open>operator[]\<close>: a later entry for the same agent replaces the earlier one.
\<close>

fun parse_costmap_loop ::
  "(string \<Rightarrow> bool) \<Rightarrow> (string \<Rightarrow> real) \<Rightarrow> cost_element list \<Rightarrow>
   (string \<rightharpoonup> real) \<Rightarrow> (string \<rightharpoonup> real) option" where
  "parse_costmap_loop is_float stod [] costmap = Some costmap"
| "parse_costmap_loop is_float stod (c # cs) costmap =
     (case agent_attr c of
        None \<Rightarrow> None
      | Some agent_name \<Rightarrow>
     (case value_attr c of
        None \<Rightarrow> None
      | Some attribute_text \<Rightarrow>
     (let cost_value = map tolower attribute_text in
      if cost_value = ''inf''
      then parse_costmap_loop is_float stod cs (costmap(agent_name \<mapsto> INT_MAX))
      else if is_float cost_value
      then parse_costmap_loop is_float stod cs (costmap(agent_name \<mapsto> stod cost_value))
      else None)))"

definition parse_costmap ::
  "(string \<Rightarrow> bool) \<Rightarrow> (string \<Rightarrow> real) \<Rightarrow> cost_element list \<Rightarrow> (string \<rightharpoonup> real) option" where
  "parse_costmap is_float stod costs = parse_costmap_loop is_float stod costs Map.empty"

text \<open>
  What the library's number reader does on the one string the examples below use:
  \<open>3000000000\<close> is read in full, without failure, as three thousand million.
\<close>

definition sample_is_float :: "string \<Rightarrow> bool" where
  "sample_is_float s = (s = ''3000000000'')"

definition sample_stod :: "string \<Rightarrow> real" where
  "sample_stod s = (if s = ''3000000000'' then 3000000000 else 0)"

definition cost_of :: "string \<Rightarrow> string \<Rightarrow> cost_element" where
  "cost_of a v = \<lparr>agent_attr = Some a, value_attr = Some v\<rparr>"

section \<open>The A* search (astar.hpp)\<close>

text \<open>
  \<open>isGoal\<close>: no sub-assembly of the node has a successor in the assembly graph.
\<close>

fun isGoal_loop :: "(AssemblyData, 'e) DiGraph \<Rightarrow> (string \<times> nat) list \<Rightarrow> bool" where
  "isGoal_loop graph [] = True"
| "isGoal_loop graph (x # xs) = (if hasSuccessor graph (snd x) then False else isGoal_loop graph xs)"

definition isGoal :: "(AssemblyData, 'e) DiGraph \<Rightarrow> SearchData GNode \<Rightarrow> bool" where
  "isGoal graph current = isGoal_loop graph (subassemblies (n_data current))"

text \<open>
  The search graph holds the nodes; \<open>search\<close> works on pointers to them and writes
  their scores and marks in place. A pointer is the node's identifier, and \<open>put_node\<close>
  writes a node back under its identifier.
\<close>

definition put_node :: "'d GNode \<Rightarrow> ('d, 'e) DiGraph \<Rightarrow> ('d, 'e) DiGraph" where
  "put_node n g = g\<lparr>dg_nodes := map (\<lambda>m. if n_id m = n_id n then n else m) (dg_nodes g)\<rparr>"

definition set_marked :: "bool \<Rightarrow> SearchData GNode \<Rightarrow> SearchData GNode" where
  "set_marked b n = n\<lparr>n_data := (n_data n)\<lparr>marked := b\<rparr>\<rparr>"

definition f_score_at :: "(SearchData, 'e) DiGraph \<Rightarrow> nat \<Rightarrow> double" where
  "f_score_at g i = (case getNode g i of None \<Rightarrow> Finite 0 | Some n \<Rightarrow> f_score (n_data n))"

text \<open>
  The body of the \<open>for\<close> loop of \<open>search\<close> over the successor edges of \<open>current\<close>:
  the child's \<open>g_score\<close>, \<open>h_score\<close> and \<open>f_score\<close> are written and the child is
  pushed.

  Modelled from the spec: expander.hpp is not among the sources. By the spec,
  \<open>expandNode\<close> of a node creates its children and the edges to them. The search graph
  given to the model holds every node with its children already, so the call changes
  nothing \<open>search\<close> reads and has no counterpart below.
\<close>

fun push_children ::
  "(nat \<Rightarrow> double) \<Rightarrow> (AssemblyData, 'a) DiGraph \<Rightarrow> nat \<Rightarrow> EdgeData GEdge list \<Rightarrow>
   (SearchData, EdgeData) DiGraph \<Rightarrow> nat list \<Rightarrow>
   error + ((SearchData, EdgeData) DiGraph \<times> nat list)" where
  "push_children log2f assembly current [] graph openSet = Inr (graph, openSet)"
| "push_children log2f assembly current (edge # rest) graph openSet =
     (case getNode graph (e_destination edge) of
        None \<Rightarrow> Inl NullDeref
      | Some child \<Rightarrow>
     (case getNode graph current of
        None \<Rightarrow> Inl NullDeref
      | Some cur \<Rightarrow>
     (case update_scores log2f assembly
             (set_g_score (dadd (g_score (n_data cur)) (cost (e_data edge))) child) of
        Inl err \<Rightarrow> Inl err
      | Inr child' \<Rightarrow>
          push_children log2f assembly current rest (put_node child' graph)
            (openSet @ [n_id child']))))"

text \<open>
  The \<open>while\<close> loop. The open set is the list of the pointers pushed and not yet popped,
  in the order of the pushes. \<open>std::priority_queue::top\<close> yields an element of least
  \<open>f_score\<close>; which one among equals is the library's choice, so the position it takes
  is a parameter, \<open>top_index\<close>, given the \<open>f_score\<close>s in the queue. The loop may run
  forever on a graph with a cycle: \<open>None\<close> is not returning. The last argument records
  the nodes popped so far, which the code does not store; it serves to say which node was
  popped last.
\<close>

partial_function (option) search_loop ::
  "(double list \<Rightarrow> nat) \<Rightarrow> (nat \<Rightarrow> double) \<Rightarrow> (AssemblyData, 'a) DiGraph \<Rightarrow>
   (SearchData, EdgeData) DiGraph \<Rightarrow> nat list \<Rightarrow> nat option \<Rightarrow> nat list \<Rightarrow>
   (error + (nat option \<times> (SearchData, EdgeData) DiGraph \<times> nat list \<times> nat list)) option" where
  "search_loop top_index log2f assembly graph openSet current popped =
     (if openSet = [] then Some (Inr (current, graph, openSet, popped))
      else
        let k = top_index (map (f_score_at graph) openSet) in
        if length openSet \<le> k then Some (Inl OutOfBounds)
        else
          let cur = openSet ! k;
              openSet1 = take k openSet @ drop (Suc k) openSet
          in case getNode graph cur of
               None \<Rightarrow> Some (Inl NullDeref)
             | Some node \<Rightarrow>
                 if isGoal assembly node
                 then Some (Inr (Some cur, graph, openSet1, popped @ [cur]))
                 else
                   let graph1 = put_node (set_marked True node) graph in
                   case push_children log2f assembly cur (getSuccessorEdges graph1 cur)
                          graph1 openSet1 of
                     Inl err \<Rightarrow> Some (Inl err)
                   | Inr (graph2, openSet2) \<Rightarrow>
                       search_loop top_index log2f assembly graph2 openSet2 (Some cur)
                         (popped @ [cur]))"

definition search ::
  "(double list \<Rightarrow> nat) \<Rightarrow> (nat \<Rightarrow> double) \<Rightarrow> (AssemblyData, 'a) DiGraph \<Rightarrow>
   (SearchData, EdgeData) DiGraph \<Rightarrow> nat \<Rightarrow>
   (error + (nat option \<times> (SearchData, EdgeData) DiGraph \<times> nat list \<times> nat list)) option" where
  "search top_index log2f assembly graph root_id =
     (case getNode graph root_id of
        None \<Rightarrow> Some (Inl NullDeref)
      | Some r \<Rightarrow>
     (case update_scores log2f assembly r of
        Inl err \<Rightarrow> Some (Inl err)
      | Inr r' \<Rightarrow>
          search_loop top_index log2f assembly (put_node r' graph) [root_id] None []))"

text \<open>
  The first position of a least element: ties go to the element pushed first. The
  comparison is that of \<open>LessThan\<close>, \<open>lhs->data.f_score > rhs->data.f_score\<close>.
\<close>

fun first_min :: "double list \<Rightarrow> nat" where
  "first_min [] = 0"
| "first_min [x] = 0"
| "first_min (x # y # ys) = (let k = first_min (y # ys) in if dless ((y # ys) ! k) x then Suc k else 0)"

definition dead_end_assembly :: "(AssemblyData, unit) DiGraph" where
  "dead_end_assembly = \<lparr>dg_nodes = [mk_node 1 SUBASSEMBLY ''ab'', mk_node 2 ACTION ''j1'',
       mk_node 3 SUBASSEMBLY ''cd'', mk_node 4 ACTION ''j2''],
     dg_edges = [mk_edge 1 2, mk_edge 2 3, mk_edge 3 4]\<rparr>"

definition dead_end_search :: "(SearchData, EdgeData) DiGraph" where
  "dead_end_search = \<lparr>dg_nodes = [mk_state 0 0 1 [(''ab'', 1)], mk_state 1 0 1 [(''cd'', 3)]],
     dg_edges = [\<lparr>e_source = 0, e_destination = 1,
        e_data = \<lparr>planned_assignments = [], cost = Finite 2\<rparr>\<rparr>]\<rparr>"


text \<open>
  A search state is open when it is a node of the search graph, is not a goal, and each of
  its sub-assemblies names a node of the assembly graph. A set of states is closed under
  the edges when every successor of a member is a member; it unfolds finitely when a
  weight on the states exceeds, at every member, the sum of the weights of its successors
  (so only finitely many paths leave any member: the search graph has no cycle there).
\<close>

definition resolvable :: "(AssemblyData, 'a) DiGraph \<Rightarrow> SearchData GNode \<Rightarrow> bool" where
  "resolvable assembly n = list_all (\<lambda>x. getNode assembly (snd x) \<noteq> None) (subassemblies (n_data n))"

definition open_state :: "(AssemblyData, 'a) DiGraph \<Rightarrow> (SearchData, EdgeData) DiGraph \<Rightarrow> nat \<Rightarrow> bool" where
  "open_state assembly g i =
     (case getNode g i of None \<Rightarrow> False | Some n \<Rightarrow> \<not> isGoal assembly n \<and> resolvable assembly n)"

definition closed_under_edges :: "(SearchData, EdgeData) DiGraph \<Rightarrow> nat set \<Rightarrow> bool" where
  "closed_under_edges g R = (\<forall>i\<in>R. \<forall>e\<in>set (getSuccessorEdges g i). e_destination e \<in> R)"

definition finitely_unfolding :: "(SearchData, EdgeData) DiGraph \<Rightarrow> nat set \<Rightarrow> (nat \<Rightarrow> nat) \<Rightarrow> bool" where
  "finitely_unfolding g R w =
     (\<forall>i\<in>R. sum_list (map (\<lambda>e. w (e_destination e)) (getSuccessorEdges g i)) < w i)"

section \<open>The combinator (combinator.hpp)\<close>

subsection \<open>The permutation algorithms of the C++ library\<close>

text \<open>
  \<open>std::next_permutation\<close> and \<open>std::prev_permutation\<close> are one algorithm run with
  opposite comparisons. From the right end, find the first position \<open>i\<close> whose element
  is less than its right neighbour; if there is none, reverse the whole range and answer
  \<open>false\<close>. Otherwise find, again from the right end, the first element that \<open>a[i]\<close> is
  less than, swap the two, reverse everything right of \<open>i\<close>, and answer \<open>true\<close>.
  A range of fewer than two elements has no such position and is its own reverse.
  \<open>find_pivot lt a i1\<close> is the first search with the right neighbour at \<open>i1\<close>;
  \<open>find_swap lt a p j\<close> is the second with \<open>j\<close> elements left to look at.
\<close>

fun find_pivot :: "('a \<Rightarrow> 'a \<Rightarrow> bool) \<Rightarrow> 'a list \<Rightarrow> nat \<Rightarrow> nat option" where
  "find_pivot lt a 0 = None"
| "find_pivot lt a (Suc i) =
     (if lt (a ! i) (a ! Suc i) then Some i else find_pivot lt a i)"

fun find_swap :: "('a \<Rightarrow> 'a \<Rightarrow> bool) \<Rightarrow> 'a list \<Rightarrow> 'a \<Rightarrow> nat \<Rightarrow> nat" where
  "find_swap lt a p 0 = 0"
| "find_swap lt a p (Suc j) = (if lt p (a ! j) then j else find_swap lt a p j)"

definition permutation_step :: "('a \<Rightarrow> 'a \<Rightarrow> bool) \<Rightarrow> 'a list \<Rightarrow> bool \<times> 'a list" where
  "permutation_step lt a =
     (case find_pivot lt a (length a - 1) of
        None \<Rightarrow> (False, rev a)
      | Some i \<Rightarrow>
          (let i2 = find_swap lt a (a ! i) (length a);
               b = a[i := a ! i2, i2 := a ! i]
           in (True, take (Suc i) b @ rev (drop (Suc i) b))))"

definition next_permutation :: "nat list \<Rightarrow> bool \<times> nat list" where
  "next_permutation d = permutation_step (\<lambda>x y. x < y) d"

definition prev_permutation :: "bool list \<Rightarrow> bool \<times> bool list" where
  "prev_permutation v = permutation_step (\<lambda>x y. y < x) v"

subsection \<open>The configuration and the combinator's members\<close>

record Agent =
  agent_name :: string
  hostname :: string
  port :: string

text \<open>
  Of \<open>config::Configuration\<close> the combinator reads the \<open>agents\<close> map only, in its
  iteration order. The members \<open>node_actions_\<close> and \<open>temp_nodes\<close> of the class are never
  touched by the functions below and are left out.
\<close>

record Configuration =
  agents :: "(string \<times> Agent) list"

record Combinator =
  agent_action_assignements :: "AgentActionAssignment list list"
  temp_agent_combinations :: "string list list"
  temp_agent_set :: "string list"
  temp_action_combinations :: "(string \<times> nat) list list"
  temp_action_set :: "(string \<times> nat) list"

text \<open>
  A call either does not return (\<open>None\<close>), or leaves defined behaviour (\<open>Some (Inl e)\<close>),
  or returns (\<open>Some (Inr x)\<close>).
\<close>

type_synonym 'a outcome = "(error + 'a) option"

definition and_then :: "'a outcome \<Rightarrow> ('a \<Rightarrow> 'b outcome) \<Rightarrow> 'b outcome" where
  "and_then r f = (case r of None \<Rightarrow> None | Some (Inl e) \<Rightarrow> Some (Inl e) | Some (Inr x) \<Rightarrow> f x)"

subsection \<open>generateActionCombinationSets\<close>

text \<open>
  The \<open>for\<close> loop that fills \<open>temp_action_set_\<close> for the current \<open>indices\<close>: one action
  per frontier node, read from the node's successor list at the node's index.
\<close>

fun action_set_loop ::
  "(AssemblyData, 'e) DiGraph \<Rightarrow> nat list \<Rightarrow> nat list \<Rightarrow> (string \<times> nat) list \<Rightarrow>
   error + (string \<times> nat) list" where
  "action_set_loop graph [] indices temp = Inr temp"
| "action_set_loop graph (n # node_ids) [] temp = Inl OutOfBounds"
| "action_set_loop graph (n # node_ids) (ix # indices) temp =
     (if ix < length (successorNodes graph n)
      then (let node_id = successorNodes graph n ! ix in
            case getNodeData graph node_id of
              None \<Rightarrow> Inl NullDeref
            | Some action_data \<Rightarrow>
                action_set_loop graph node_ids indices (temp @ [(name action_data, node_id)]))
      else Inl OutOfBounds)"

text \<open>
  The inner \<open>while\<close>: the rightmost position whose index can still advance; \<open>None\<close> is
  \<open>next < 0\<close>.
\<close>

fun find_next :: "(AssemblyData, 'e) DiGraph \<Rightarrow> nat list \<Rightarrow> nat list \<Rightarrow> nat \<Rightarrow> nat option" where
  "find_next graph node_ids indices 0 = None"
| "find_next graph node_ids indices (Suc next) =
     (if indices ! next + 1 \<ge> numberOfSuccessors graph (node_ids ! next)
      then find_next graph node_ids indices next
      else Some next)"

partial_function (option) action_combination_loop ::
  "(AssemblyData, 'e) DiGraph \<Rightarrow> nat list \<Rightarrow> nat list \<Rightarrow> (string \<times> nat) list list \<Rightarrow>
   ((string \<times> nat) list list \<times> (string \<times> nat) list) outcome" where
  "action_combination_loop graph node_ids indices combos =
     (case action_set_loop graph node_ids indices [] of
        Inl err \<Rightarrow> Some (Inl err)
      | Inr temp \<Rightarrow>
          (case find_next graph node_ids indices (length node_ids) of
             None \<Rightarrow> Some (Inr (combos @ [temp], temp))
           | Some next \<Rightarrow>
               action_combination_loop graph node_ids
                 (take next indices @ [indices ! next + 1] @
                    replicate (length node_ids - Suc next) 0)
                 (combos @ [temp])))"

definition generateActionCombinationSets ::
  "Combinator \<Rightarrow> (AssemblyData, 'e) DiGraph \<Rightarrow> nat list \<Rightarrow> Combinator outcome" where
  "generateActionCombinationSets c graph node_ids =
     and_then (action_combination_loop graph node_ids (replicate (length node_ids) 0) [])
       (\<lambda>r. Some (Inr (c\<lparr>temp_action_combinations := fst r, temp_action_set := snd r\<rparr>)))"

subsection \<open>generateAgentCombinationSets\<close>

text \<open>The agents selected by the flags \<open>v\<close>, in the order of the roster.\<close>

definition selected :: "string list \<Rightarrow> bool list \<Rightarrow> string list" where
  "selected agts v = map fst (filter snd (zip agts v))"

partial_function (option) agent_combination_loop ::
  "string list \<Rightarrow> bool list \<Rightarrow> string list list \<Rightarrow> (string list list \<times> string list) option" where
  "agent_combination_loop agts v combos =
     (let temp = selected agts v;
          combos' = combos @ [temp];
          r = prev_permutation v
      in if fst r then agent_combination_loop agts (snd r) combos'
         else Some (combos', temp))"

text \<open>\<open>std::fill(v.begin(), v.begin() + k, true)\<close> needs \<open>k\<close> elements to fill.\<close>

definition generateAgentCombinationSets ::
  "Combinator \<Rightarrow> string list \<Rightarrow> nat \<Rightarrow> Combinator outcome" where
  "generateAgentCombinationSets c agts k =
     (let n = length agts in
      if n < k then Some (Inl OutOfBounds)
      else (case agent_combination_loop agts (replicate k True @ replicate (n - k) False) [] of
              None \<Rightarrow> None
            | Some r \<Rightarrow>
                Some (Inr (c\<lparr>temp_agent_combinations := fst r, temp_agent_set := snd r\<rparr>))))"

subsection \<open>assignAgentsToActions\<close>

text \<open>
  The \<open>for\<close> loop that builds one assignment: agent \<open>i\<close> gets the action at position
  \<open>d[i]\<close>. Both \<open>d[i]\<close> and \<open>cur_actions[d[i]]\<close> must exist.
\<close>

fun build_assignment ::
  "string list \<Rightarrow> (string \<times> nat) list \<Rightarrow> nat list \<Rightarrow> AgentActionAssignment list \<Rightarrow>
   error + AgentActionAssignment list" where
  "build_assignment [] cur_actions d assignment = Inr assignment"
| "build_assignment (a # cur_agents) cur_actions [] assignment = Inl OutOfBounds"
| "build_assignment (a # cur_agents) cur_actions (di # d) assignment =
     (if di < length cur_actions
      then build_assignment cur_agents cur_actions d
             (assignment @ [\<lparr>agent = a, action = fst (cur_actions ! di),
                              action_node_id = snd (cur_actions ! di)\<rparr>])
      else Inl OutOfBounds)"

partial_function (option) assignment_loop ::
  "string list \<Rightarrow> (string \<times> nat) list \<Rightarrow> nat list \<Rightarrow> AgentActionAssignment list list \<Rightarrow>
   AgentActionAssignment list list outcome" where
  "assignment_loop cur_agents cur_actions d assignments =
     (case build_assignment cur_agents cur_actions d [] of
        Inl err \<Rightarrow> Some (Inl err)
      | Inr assignment \<Rightarrow>
          (let k = length cur_agents;
               r = next_permutation (take k d @ rev (drop k d))
           in if fst r then assignment_loop cur_agents cur_actions (snd r)
                              (assignments @ [assignment])
              else Some (Inr (assignments @ [assignment]))))"

definition assignAgentsToActions ::
  "Combinator \<Rightarrow> string list \<Rightarrow> (string \<times> nat) list \<Rightarrow> Combinator outcome" where
  "assignAgentsToActions c cur_agents cur_actions =
     and_then (assignment_loop cur_agents cur_actions [0..<length cur_actions]
                 (agent_action_assignements c))
       (\<lambda>r. Some (Inr (c\<lparr>agent_action_assignements := r\<rparr>)))"

subsection \<open>generateAgentActionAssignments\<close>

fun for_actions ::
  "Combinator \<Rightarrow> string list \<Rightarrow> (string \<times> nat) list list \<Rightarrow> Combinator outcome" where
  "for_actions c agts [] = Some (Inr c)"
| "for_actions c agts (acts # rest) =
     and_then (assignAgentsToActions c agts acts) (\<lambda>c'. for_actions c' agts rest)"

fun for_agents :: "Combinator \<Rightarrow> string list list \<Rightarrow> Combinator outcome" where
  "for_agents c [] = Some (Inr c)"
| "for_agents c (agts # rest) =
     and_then (for_actions c agts (temp_action_combinations c)) (\<lambda>c'. for_agents c' rest)"

fun for_sizes :: "Combinator \<Rightarrow> string list \<Rightarrow> nat list \<Rightarrow> Combinator outcome" where
  "for_sizes c vector_of_agents [] = Some (Inr c)"
| "for_sizes c vector_of_agents (j # js) =
     and_then (generateAgentCombinationSets c vector_of_agents j)
       (\<lambda>c1. and_then (for_agents c1 (temp_agent_combinations c1))
          (\<lambda>c2. for_sizes c2 vector_of_agents js))"

definition generateAgentActionAssignments ::
  "Combinator \<Rightarrow> Configuration \<Rightarrow> (AssemblyData, 'e) DiGraph \<Rightarrow> nat list \<Rightarrow>
   (AgentActionAssignment list list \<times> Combinator) outcome" where
  "generateAgentActionAssignments c config graph nodes_arg =
     (let l = min (length nodes_arg) (length (agents config)) in
      and_then (generateActionCombinationSets c graph nodes_arg)
        (\<lambda>c1. let c2 = c1\<lparr>agent_action_assignements := []\<rparr>;
                   vector_of_agents = map (\<lambda>key_value. agent_name (snd key_value)) (agents config)
               in and_then (for_sizes c2 vector_of_agents [1..<Suc l])
                    (\<lambda>c3. Some (Inr (agent_action_assignements c3, c3)))))"


subsection \<open>Notions used to state what the loops do\<close>

text \<open>The number of ways to place \<open>k\<close> agents on \<open>n\<close> positions, no two on the same.\<close>

fun falling :: "nat \<Rightarrow> nat \<Rightarrow> nat" where
  "falling 0 n = 1"
| "falling (Suc k) n = n * falling k (n - 1)"

text \<open>
  What the \<open>do\<close> loop of \<open>assignAgentsToActions\<close> does from its \<open>while\<close> test on, when
  the test is made on \<open>d\<close> with \<open>xs\<close> just appended to the assignments.
\<close>

definition continue_assignments ::
  "string list \<Rightarrow> (string \<times> nat) list \<Rightarrow> nat list \<Rightarrow> AgentActionAssignment list list \<Rightarrow>
   AgentActionAssignment list list \<Rightarrow> AgentActionAssignment list list outcome" where
  "continue_assignments cur_agents cur_actions d assignments xs =
     (let r = next_permutation d
      in if fst r then assignment_loop cur_agents cur_actions (snd r) (assignments @ xs)
         else Some (Inr (assignments @ xs)))"

text \<open>The same for the \<open>do\<close> loop of \<open>generateAgentCombinationSets\<close>.\<close>

definition continue_combinations ::
  "string list \<Rightarrow> bool list \<Rightarrow> string list list \<Rightarrow> string list list \<Rightarrow>
   (string list list \<times> string list) option" where
  "continue_combinations agts v combos xs =
     (let r = prev_permutation v
      in if fst r then agent_combination_loop agts (snd r) (combos @ xs)
         else Some (combos @ xs, last xs))"

text \<open>
  The position of an index vector in the odometer order of
  \<open>generateActionCombinationSets\<close>, for the list \<open>ss\<close> of the sizes of the successor lists.
\<close>

fun odometer_rank :: "nat list \<Rightarrow> nat list \<Rightarrow> nat" where
  "odometer_rank (s # ss) (i # is) = i * prod_list ss + odometer_rank ss is"
| "odometer_rank ss is = 0"


text \<open>
  The index vector that follows \<open>is\<close> in the odometer order, read from the left: the
  rightmost index that can advance does, and those right of it return to zero; \<open>None\<close>
  when no index can advance.
\<close>

fun advance :: "nat list \<Rightarrow> nat list \<Rightarrow> nat list option" where
  "advance (s # ss) (i # is) =
     (case advance ss is of
        Some is' \<Rightarrow> Some (i # is')
      | None \<Rightarrow> if i + 1 \<ge> s then None else Some (Suc i # replicate (length is) 0))"
| "advance ss is = None"


text \<open>
  Two combinators have the same core when they agree on the two members that
  \<open>assignAgentsToActions\<close> and the loops around it read before writing them: the
  assignment list and the action combinations.
\<close>

definition same_core :: "Combinator \<Rightarrow> Combinator \<Rightarrow> bool" where
  "same_core c c' =
     (agent_action_assignements c = agent_action_assignements c' \<and>
      temp_action_combinations c = temp_action_combinations c')"


subsection \<open>Example inputs\<close>

definition fresh :: Combinator where
  "fresh = \<lparr>agent_action_assignements = [], temp_agent_combinations = [], temp_agent_set = [],
     temp_action_combinations = [], temp_action_set = []\<rparr>"

definition roster :: "string list \<Rightarrow> Configuration" where
  "roster ns = \<lparr>agents = map (\<lambda>n. (n, \<lparr>agent_name = n, hostname = [], port = []\<rparr>)) ns\<rparr>"

definition two_by_one :: "(AssemblyData, unit) DiGraph" where
  "two_by_one = \<lparr>dg_nodes = [mk_node 1 SUBASSEMBLY ''s1'', mk_node 2 SUBASSEMBLY ''s2'',
       mk_node 3 ACTION ''a1'', mk_node 4 ACTION ''a2''],
     dg_edges = [mk_edge 1 3, mk_edge 2 4]\<rparr>"

definition three_by_two :: "(AssemblyData, unit) DiGraph" where
  "three_by_two = \<lparr>dg_nodes = [mk_node 1 SUBASSEMBLY ''s1'', mk_node 2 SUBASSEMBLY ''s2'',
       mk_node 3 SUBASSEMBLY ''s3'', mk_node 11 ACTION ''a11'', mk_node 12 ACTION ''a12'',
       mk_node 21 ACTION ''a21'', mk_node 22 ACTION ''a22'', mk_node 31 ACTION ''a31'',
       mk_node 32 ACTION ''a32''],
     dg_edges = [mk_edge 1 11, mk_edge 1 12, mk_edge 2 21, mk_edge 2 22, mk_edge 3 31,
       mk_edge 3 32]\<rparr>"

definition with_leaf :: "(AssemblyData, unit) DiGraph" where
  "with_leaf = \<lparr>dg_nodes = [mk_node 1 SUBASSEMBLY ''s1'', mk_node 2 SUBASSEMBLY ''s2'',
       mk_node 3 ACTION ''a1''],
     dg_edges = [mk_edge 1 3]\<rparr>"

definition used :: Combinator where
  "used = \<lparr>agent_action_assignements = [[\<lparr>agent = ''Z'', action = ''old'', action_node_id = 9\<rparr>]],
     temp_agent_combinations = [[''Z'']], temp_agent_set = [''Z''],
     temp_action_combinations = [[(''old'', 9)]], temp_action_set = [(''old'', 9)]\<rparr>"

section \<open>Properties of the graph substrate\<close>

lemma two_nodes_value:
  "two_nodes = \<lparr>nodes = [(1, 0), (2, 1)], edges = [],
     node_heap = [Some \<lparr>node_id = 1, node_data = ''a'', parents = [], children = []\<rparr>,
                  Some \<lparr>node_id = 2, node_data = ''b'', parents = [], children = []\<rparr>],
     edge_heap = []\<rparr>"
  by (simp add: two_nodes_def insertNode_def empty_graph_def umap_insert_def Let_def)

lemma one_node_value:
  "one_node = \<lparr>nodes = [(1, 0)], edges = [],
     node_heap = [Some \<lparr>node_id = 1, node_data = ''a'', parents = [], children = []\<rparr>],
     edge_heap = []\<rparr>"
  by (simp add: one_node_def insertNode_def empty_graph_def umap_insert_def Let_def)

lemma insertEdge_two_nodes:
  "insertEdge () 1 2 two_nodes =
     Inr (1, \<lparr>nodes = [(1, 0), (2, 1)], edges = [0],
       node_heap = [Some \<lparr>node_id = 1, node_data = ''a'', parents = [], children = [0]\<rparr>,
                    Some \<lparr>node_id = 2, node_data = ''b'', parents = [0], children = []\<rparr>],
       edge_heap = [Some \<lparr>edge_data = (), source = 0, destination = 1\<rparr>]\<rparr>)"
  by (simp add: two_nodes_value insertEdge_def umap_find_def addSuccessor_def
      addPredecessor_def deref_def Let_def)

lemma insertEdge_self_loop:
  "insertEdge () 1 1 one_node =
     Inr (1, \<lparr>nodes = [(1, 0)], edges = [0],
       node_heap = [Some \<lparr>node_id = 1, node_data = ''a'', parents = [0], children = [0]\<rparr>],
       edge_heap = [Some \<lparr>edge_data = (), source = 0, destination = 0\<rparr>]\<rparr>)"
  by (simp add: one_node_value insertEdge_def umap_find_def addSuccessor_def
      addPredecessor_def deref_def Let_def)

text \<open>
  C7. \<open>insertEdge\<close> is documented to return the index of the newly inserted edge, but it
  returns \<open>edges_.size()\<close> read after the \<open>push_back\<close>. On the graph with the two
  nodes 1 and 2 and no edge, \<open>insertEdge(data, 1, 2)\<close> returns 1, the new edge is stored at
  index 0, where \<open>findEdge(1, 2)\<close> finds it, and no edge is stored at index 1.
\<close>

theorem insertEdge_returns_size_not_index:
  "\<exists>g'. insertEdge () 1 2 two_nodes = Inr (1, g') \<and>
        findEdge 1 2 g' = Inr (True, Some 0) \<and>
        numberOfEdges g' = 1"
  unfolding insertEdge_two_nodes
  by (simp add: findEdge_def umap_find_def deref_def numberOfEdges_def)

text \<open>
  C6. \<open>eraseNode\<close> copies the node's predecessor and successor lists and walks them one
  after the other, deleting every edge it meets. An edge from a node to itself is in both
  copies: the first loop deletes it, and the second loop then reads it again through the
  stale pointer (\<open>edge_to_remove->getDestination()\<close>). On the graph made by
  \<open>insertNode(1, a)\<close> and \<open>insertEdge(data, 1, 1)\<close>, \<open>eraseNode(1)\<close> is a use after free
  and returns nothing.
\<close>

theorem eraseNode_self_loop_use_after_free:
  "\<exists>g. insertEdge () 1 1 one_node = Inr (1, g) \<and> eraseNode 1 g = Inl UseAfterFree"
  unfolding insertEdge_self_loop
  by (simp add: eraseNode_def umap_find_def umap_erase_def deref_def
      erase_incident_def removeSuccessor_def end_id_def findEdgeIndexHelper_def
      vector_erase_def Let_def)

text \<open>
  Without a self-loop the same walk is clean: on the graph with the nodes 1 and 2 and the
  edge from 1 to 2, \<open>eraseNode(2)\<close> returns true, leaves node 1 alone in the map, no edge
  in the edge collection and no edge in the successor list of node 1.
\<close>

lemma eraseNode_plain_edge:
  "\<exists>g. insertEdge () 1 2 two_nodes = Inr (1, g) \<and>
     map_sum id (\<lambda>r. (fst r, nodes (snd r), edges (snd r),
                       map_option children (deref (node_heap (snd r)) 0))) (eraseNode 2 g)
       = Inr (True, [(1, 0)], [], Some [])"
  unfolding insertEdge_two_nodes
  by (simp add: eraseNode_def umap_find_def umap_erase_def deref_def
      erase_incident_def removeSuccessor_def end_id_def findEdgeIndexHelper_def
      vector_erase_def Let_def)

text \<open>
  C10. When the identifier is already bound to a node, \<open>insertNode\<close> changes nothing that
  the graph can reach: the map from identifiers to nodes is the same (so the number of
  nodes is), every node object that existed before has its identifier, data and both
  adjacency lists as before, and the edge collection and every edge object are the same.
\<close>

theorem insertNode_existing_id_unchanged:
  assumes "umap_find (nodes g) nodeId = Some n"
  shows "nodes (snd (insertNode nodeId d g)) = nodes g
       \<and> numberOfNodes (snd (insertNode nodeId d g)) = numberOfNodes g
       \<and> (\<forall>a. a < length (node_heap g) \<longrightarrow>
            deref (node_heap (snd (insertNode nodeId d g))) a = deref (node_heap g) a)
       \<and> edges (snd (insertNode nodeId d g)) = edges g
       \<and> edge_heap (snd (insertNode nodeId d g)) = edge_heap g"
  using assms
  by (simp add: insertNode_def umap_insert_def umap_find_def numberOfNodes_def deref_def
      Let_def nth_append)

theorem insertNode_existing_id_unchanged_witness:
  "umap_find (nodes two_nodes) 2 = Some 1
   \<and> nodes (snd (insertNode 2 ''c'' two_nodes)) = [(1, 0), (2, 1)]
   \<and> numberOfNodes (snd (insertNode 2 ''c'' two_nodes)) = 2
   \<and> map_option node_data (deref (node_heap (snd (insertNode 2 ''c'' two_nodes))) 1) = Some ''b''"
proof -
  have h: "umap_find (nodes two_nodes) 2 = Some 1"
    by (simp add: two_nodes_value umap_find_def)
  show ?thesis
    using h insertNode_existing_id_unchanged [OF h, of "''c''"]
    by (simp add: two_nodes_value numberOfNodes_def deref_def)
qed

section \<open>Properties of the validation\<close>

lemma check_neighbours_Some: "check_neighbours node ps = Some r \<Longrightarrow> r = - 1"
  by (induction ps) (auto split: if_splits)

lemma check_neighbours_None:
  "check_neighbours node ps = None \<Longrightarrow> p \<in> set ps \<Longrightarrow>
     (node_type (n_data node) = ACTION \<longrightarrow> node_type (n_data p) = SUBASSEMBLY) \<and>
     (node_type (n_data node) = SUBASSEMBLY \<longrightarrow> node_type (n_data p) = ACTION)"
  by (induction ps) (auto split: if_splits)

lemma validate_nodes_0:
  "validate_nodes g ns = 0 \<Longrightarrow> n \<in> set ns \<Longrightarrow>
     check_neighbours n (getPredecessorNodes g (n_id n)) = None \<and>
     check_neighbours n (getSuccessorNodes g (n_id n)) = None"
  by (induction ns) (auto split: option.splits dest: check_neighbours_Some)

lemma getNode_Some: "getNode g i = Some n \<Longrightarrow> n \<in> set (dg_nodes g) \<and> n_id n = i"
  by (auto simp: getNode_def find_Some_iff)

lemma set_map_filter: "set (List.map_filter f xs) = {y. \<exists>x\<in>set xs. f x = Some y}"
  by (induction xs) (auto simp: List.map_filter_simps split: option.splits)

lemma edge_in_successors:
  "e \<in> set (dg_edges g) \<Longrightarrow> getNode g (e_destination e) = Some nd \<Longrightarrow>
     nd \<in> set (getSuccessorNodes g (e_source e))"
  by (auto simp: getSuccessorNodes_def successorNodes_def getSuccessorEdges_def set_map_filter)

lemma edge_in_predecessors:
  "e \<in> set (dg_edges g) \<Longrightarrow> getNode g (e_source e) = Some ns \<Longrightarrow>
     ns \<in> set (getPredecessorNodes g (e_destination e))"
  by (auto simp: getPredecessorNodes_def predecessorNodes_def getPredecessorEdges_def set_map_filter)

text \<open>
  C5 (amended). When \<open>validate_graph\<close> reports success, every edge with an end of kind
  ACTION or SUBASSEMBLY runs SUBASSEMBLY to ACTION or ACTION to SUBASSEMBLY. The two tests
  of \<open>validate_graph\<close> fire only at a node of kind ACTION or SUBASSEMBLY, so an edge
  between two nodes of the kinds INTERACTION and INTERASSEMBLY is never looked at.
\<close>

theorem validate_graph_alternation:
  assumes ok: "validate_graph g = 0"
    and e: "e \<in> set (dg_edges g)"
    and ns: "getNode g (e_source e) = Some ns"
    and nd: "getNode g (e_destination e) = Some nd"
    and kind: "and_or_kind (node_type (n_data ns)) \<or> and_or_kind (node_type (n_data nd))"
  shows "alternates (node_type (n_data ns)) (node_type (n_data nd))"
proof -
  from ns have ns_in: "ns \<in> set (dg_nodes g)" and ns_id: "n_id ns = e_source e"
    by (simp_all add: getNode_Some)
  from nd have nd_in: "nd \<in> set (dg_nodes g)" and nd_id: "n_id nd = e_destination e"
    by (simp_all add: getNode_Some)
  from ok ns_in have "check_neighbours ns (getSuccessorNodes g (n_id ns)) = None"
    unfolding validate_graph_def by (simp add: validate_nodes_0)
  with edge_in_successors [OF e nd] ns_id
  have fwd: "(node_type (n_data ns) = ACTION \<longrightarrow> node_type (n_data nd) = SUBASSEMBLY) \<and>
     (node_type (n_data ns) = SUBASSEMBLY \<longrightarrow> node_type (n_data nd) = ACTION)"
    using check_neighbours_None by metis
  from ok nd_in have "check_neighbours nd (getPredecessorNodes g (n_id nd)) = None"
    unfolding validate_graph_def by (simp add: validate_nodes_0)
  with edge_in_predecessors [OF e ns] nd_id
  have bwd: "(node_type (n_data nd) = ACTION \<longrightarrow> node_type (n_data ns) = SUBASSEMBLY) \<and>
     (node_type (n_data nd) = SUBASSEMBLY \<longrightarrow> node_type (n_data ns) = ACTION)"
    using check_neighbours_None by metis
  from kind fwd bwd show ?thesis
    unfolding alternates_def and_or_kind_def by blast
qed

lemma and_or_pair_valid: "validate_graph and_or_pair = 0"
  by (simp add: validate_graph_def and_or_pair_def mk_node_def mk_edge_def
      getPredecessorNodes_def getSuccessorNodes_def predecessorNodes_def successorNodes_def
      getPredecessorEdges_def getSuccessorEdges_def getNode_def List.map_filter_simps)

theorem validate_graph_alternation_witness:
  "validate_graph and_or_pair = 0 \<and> mk_edge 1 2 \<in> set (dg_edges and_or_pair) \<and>
   getNode and_or_pair 1 = Some (mk_node 1 SUBASSEMBLY ''ab'') \<and>
   getNode and_or_pair 2 = Some (mk_node 2 ACTION ''join'') \<and>
   alternates SUBASSEMBLY ACTION"
proof -
  have e: "mk_edge 1 2 \<in> set (dg_edges and_or_pair)"
    by (simp add: and_or_pair_def)
  have ns: "getNode and_or_pair (e_source (mk_edge 1 2)) = Some (mk_node 1 SUBASSEMBLY ''ab'')"
    by (simp add: and_or_pair_def getNode_def mk_node_def mk_edge_def)
  have nd: "getNode and_or_pair (e_destination (mk_edge 1 2)) = Some (mk_node 2 ACTION ''join'')"
    by (simp add: and_or_pair_def getNode_def mk_node_def mk_edge_def)
  have kind: "and_or_kind (node_type (n_data (mk_node 1 SUBASSEMBLY ''ab''))) \<or>
      and_or_kind (node_type (n_data (mk_node 2 ACTION ''join'')))"
    by (simp add: and_or_kind_def mk_node_def)
  from validate_graph_alternation [OF and_or_pair_valid e ns nd kind] and_or_pair_valid e ns nd
  show ?thesis by (simp add: mk_node_def mk_edge_def)
qed

text \<open>
  C5 as stated fails: the graph with two INTERACTION nodes and an edge from the first to the
  second passes validation, and that edge joins two nodes of the same kind.
\<close>

theorem validate_graph_interaction_counterexample:
  "validate_graph interaction_pair = 0 \<and> mk_edge 1 2 \<in> set (dg_edges interaction_pair) \<and>
   getNode interaction_pair 1 = Some (mk_node 1 INTERACTION ''i1'') \<and>
   getNode interaction_pair 2 = Some (mk_node 2 INTERACTION ''i2'') \<and>
   \<not> alternates INTERACTION INTERACTION"
  by (simp add: validate_graph_def interaction_pair_def mk_node_def mk_edge_def
      getPredecessorNodes_def getSuccessorNodes_def predecessorNodes_def successorNodes_def
      getPredecessorEdges_def getSuccessorEdges_def getNode_def List.map_filter_simps
      alternates_def)

section \<open>Properties of the heuristic\<close>

lemma Max_insert_max:
  fixes S :: "nat set"
  assumes "finite S"
  shows "Max (insert (max m l) S) = Max (insert m (insert l S))"
proof (cases "S = {}")
  case True
  then show ?thesis by simp
next
  case False
  with assms show ?thesis by (simp add: max.assoc)
qed

lemma max_length_loop_Max:
  "\<forall>x\<in>set xs. getNode assembly (snd x) \<noteq> None \<Longrightarrow>
   max_length_loop assembly xs m =
     Inr (Max (insert m ((\<lambda>x. name_length assembly (snd x)) ` set xs)))"
proof (induction xs arbitrary: m)
  case Nil
  then show ?case by simp
next
  case (Cons x xs)
  then obtain node where node: "getNode assembly (snd x) = Some node" by auto
  let ?l = "length (name (n_data node))"
  let ?S = "(\<lambda>x. name_length assembly (snd x)) ` set xs"
  have l: "name_length assembly (snd x) = ?l"
    by (simp add: name_length_def node)
  have step: "max_length_loop assembly (x # xs) m = max_length_loop assembly xs (max m ?l)"
    by (simp add: node max_def)
  have "max_length_loop assembly xs (max m ?l) = Inr (Max (insert (max m ?l) ?S))"
    using Cons by simp
  also have "Max (insert (max m ?l) ?S) = Max (insert m (insert ?l ?S))"
    by (rule Max_insert_max) simp
  finally show ?case
    unfolding step by (simp add: l)
qed

lemma empty_name_scores:
  "update_scores log2f_libm unnamed_assembly (mk_state 7 5 3 [('''', 1)])
     = Inr (set_f_score NegInf (set_h_score NegInf (mk_state 7 5 3 [('''', 1)])))"
  "update_scores log2f_libm unnamed_assembly (mk_state 7 5 0 [('''', 1)])
     = Inr (set_f_score NaN (set_h_score NaN (mk_state 7 5 0 [('''', 1)])))"
  by (simp_all add: update_scores_def calc_hscore_def calc_fscore_def set_h_score_def
      set_f_score_def mk_state_def unnamed_assembly_def getNode_def mk_node_def log2f_libm_def)

text \<open>
  C4. For a search node whose \<open>subassemblies\<close> map is not empty (and names nodes of the
  assembly graph), the computed \<open>h_score\<close> is \<open>log2f\<close> of the greatest name length
  \<open>L\<close> among its sub-assemblies, times the node's \<open>minimum_cost_action\<close>, and the
  \<open>f_score\<close> computed next is \<open>g_score + h_score\<close>, both in the arithmetic of
  \<open>double\<close>s. Where \<open>log2f\<close> is the library's function at \<open>L\<close>: for a name of one
  character or more and a finite \<open>minimum_cost_action\<close> the \<open>h_score\<close> is the finite
  number \<open>log\<^sub>2 L\<close> times \<open>minimum_cost_action\<close>; when every name is empty (\<open>L = 0\<close>)
  it is minus infinity times \<open>minimum_cost_action\<close>, which is an infinity, or
  not-a-number when \<open>minimum_cost_action\<close> is zero.
\<close>

theorem calc_scores_formula:
  assumes "subassemblies (n_data current) \<noteq> []"
    and "\<forall>x\<in>set (subassemblies (n_data current)). getNode assembly (snd x) \<noteq> None"
  shows "\<exists>n'. update_scores log2f assembly current = Inr n'
     \<and> h_score (n_data n') =
         dmul (log2f (max_name_length assembly (subassemblies (n_data current))))
           (minimum_cost_action (n_data current))
     \<and> f_score (n_data n') = dadd (g_score (n_data current)) (h_score (n_data n'))
     \<and> calc_hscore log2f assembly current = Inr (h_score (n_data n'))
     \<and> (log2f (max_name_length assembly (subassemblies (n_data current))) =
          log2f_libm (max_name_length assembly (subassemblies (n_data current))) \<longrightarrow>
        (0 < max_name_length assembly (subassemblies (n_data current)) \<longrightarrow>
         minimum_cost_action (n_data current) = Finite c \<longrightarrow>
           h_score (n_data n') =
             Finite (log 2 (real (max_name_length assembly (subassemblies (n_data current)))) * c)) \<and>
        (max_name_length assembly (subassemblies (n_data current)) = 0 \<longrightarrow>
           h_score (n_data n') = dmul NegInf (minimum_cost_action (n_data current))))"
proof -
  let ?S = "(\<lambda>x. name_length assembly (snd x)) ` set (subassemblies (n_data current))"
  from assms(1) have ne: "?S \<noteq> {}" by simp
  have "Max (insert 0 ?S) = Max ?S"
    using ne by (simp add: max_def)
  with max_length_loop_Max [OF assms(2), of 0]
  have "max_length_loop assembly (subassemblies (n_data current)) 0 = Inr (Max ?S)"
    by simp
  then show ?thesis
    by (simp add: update_scores_def calc_hscore_def calc_fscore_def set_h_score_def
        set_f_score_def max_name_length_def log2f_libm_def)
qed

theorem calc_scores_formula_witness:
  "update_scores log2f_libm abc_assembly (mk_state 7 5 3 [(''abcd'', 1), (''ef'', 2)])
     = Inr (set_f_score (Finite 11) (set_h_score (Finite 6)
         (mk_state 7 5 3 [(''abcd'', 1), (''ef'', 2)])))"
proof -
  let ?cur = "mk_state 7 5 3 [(''abcd'', 1), (''ef'', 2)]"
  have a: "subassemblies (n_data ?cur) \<noteq> []"
    by (simp add: mk_state_def)
  have b: "\<forall>x\<in>set (subassemblies (n_data ?cur)). getNode abc_assembly (snd x) \<noteq> None"
    by (simp add: mk_state_def abc_assembly_def getNode_def mk_node_def)
  have m: "max_name_length abc_assembly (subassemblies (n_data ?cur)) = 4"
    by (simp add: max_name_length_def mk_state_def name_length_def abc_assembly_def
        getNode_def mk_node_def)
  have c: "minimum_cost_action (n_data ?cur) = Finite 3"
    by (simp add: mk_state_def)
  have l: "log 2 (4::real) = 2"
    using log_nat_power [of 2 2 2] by simp
  from calc_scores_formula [OF a b, of log2f_libm 3, unfolded m c] obtain n' where
    n': "update_scores log2f_libm abc_assembly ?cur = Inr n'"
      and "h_score (n_data n') = Finite 6"
    by (auto simp: l)
  with n' show ?thesis
    by (auto simp: update_scores_def set_h_score_def set_f_score_def calc_fscore_def
        mk_state_def split: sum.splits)
qed

section \<open>Properties of the cost-map reader\<close>

lemma loop_bad_value:
  "c \<in> set cs \<Longrightarrow> value_attr c = Some v \<Longrightarrow> map tolower v \<noteq> ''inf'' \<Longrightarrow>
   \<not> isf (map tolower v) \<Longrightarrow> parse_costmap_loop isf sd cs m = None"
  by (induction cs arbitrary: m) (auto split: option.splits simp: Let_def)

lemma loop_other_agents:
  "parse_costmap_loop isf sd cs m = Some m' \<Longrightarrow> \<forall>c\<in>set cs. agent_attr c \<noteq> Some a \<Longrightarrow>
   m' a = m a"
  by (induction cs arbitrary: m) (auto split: option.splits if_splits simp: Let_def)

lemma loop_append:
  "parse_costmap_loop isf sd (pre @ rest) m = Some m' \<Longrightarrow>
   \<exists>m1. parse_costmap_loop isf sd pre m = Some m1 \<and> parse_costmap_loop isf sd rest m1 = Some m'"
  by (induction pre arbitrary: m) (auto split: option.splits if_splits simp: Let_def)

text \<open>
  C3 (amended). A \<open><cost>\<close> element whose value is \<open>inf\<close> in any mix of cases makes
  \<open>parse_costmap\<close> record the finite number \<open>INT_MAX\<close> (2147483647) for its agent, which
  is what the returned map holds unless a later element names the same agent; and a value
  that is not \<open>inf\<close> and that \<open>is_float\<close> rejects makes \<open>parse_costmap\<close> return no
  cost map.
\<close>

theorem parse_costmap_inf_and_errors:
  "(parse_costmap isf sd (pre @ c # post) = Some m \<and> agent_attr c = Some a \<and>
      value_attr c = Some v \<and> map tolower v = ''inf'' \<and>
      (\<forall>c'\<in>set post. agent_attr c' \<noteq> Some a)
      \<longrightarrow> m a = Some INT_MAX \<and> INT_MAX = 2147483647) \<and>
   (b \<in> set cs \<and> value_attr b = Some w \<and> map tolower w \<noteq> ''inf'' \<and>
      \<not> isf (map tolower w)
      \<longrightarrow> parse_costmap isf sd cs = None)"
proof (intro conjI impI)
  assume h: "parse_costmap isf sd (pre @ c # post) = Some m \<and> agent_attr c = Some a \<and>
      value_attr c = Some v \<and> map tolower v = ''inf'' \<and>
      (\<forall>c'\<in>set post. agent_attr c' \<noteq> Some a)"
  then obtain m1 where m1: "parse_costmap_loop isf sd (c # post) m1 = Some m"
    unfolding parse_costmap_def using loop_append by blast
  with h have "parse_costmap_loop isf sd post (m1(a \<mapsto> INT_MAX)) = Some m"
    by simp
  with h have "m a = (m1(a \<mapsto> INT_MAX)) a"
    using loop_other_agents by blast
  then show "m a = Some INT_MAX" by simp
next
  show "INT_MAX = 2147483647" by (simp add: INT_MAX_def)
next
  assume "b \<in> set cs \<and> value_attr b = Some w \<and> map tolower w \<noteq> ''inf'' \<and>
      \<not> isf (map tolower w)"
  then show "parse_costmap isf sd cs = None"
    unfolding parse_costmap_def using loop_bad_value by blast
qed

lemmas tolower_eval = tolower_def char_of_def bit_Suc_0_iff

lemma sample_table:
  "parse_costmap sample_is_float sample_stod [cost_of ''r1'' ''INF'', cost_of ''r2'' ''3000000000'']
     = Some [''r1'' \<mapsto> INT_MAX, ''r2'' \<mapsto> 3000000000]"
  by (simp add: parse_costmap_def cost_of_def tolower_eval sample_is_float_def
      sample_stod_def)

theorem parse_costmap_inf_and_errors_witness:
  "map_option (\<lambda>m. m ''r1'')
     (parse_costmap sample_is_float sample_stod
        [cost_of ''r1'' ''INF'', cost_of ''r2'' ''3000000000'']) = Some (Some 2147483647) \<and>
   parse_costmap sample_is_float sample_stod [cost_of ''r1'' ''INF'', cost_of ''r2'' ''abc''] = None"
proof -
  let ?m = "[''r1'' \<mapsto> INT_MAX, ''r2'' \<mapsto> 3000000000]"
  have a: "parse_costmap sample_is_float sample_stod
      ([] @ cost_of ''r1'' ''INF'' # [cost_of ''r2'' ''3000000000'']) = Some ?m \<and>
      agent_attr (cost_of ''r1'' ''INF'') = Some ''r1'' \<and>
      value_attr (cost_of ''r1'' ''INF'') = Some ''INF'' \<and> map tolower ''INF'' = ''inf'' \<and>
      (\<forall>c'\<in>set [cost_of ''r2'' ''3000000000'']. agent_attr c' \<noteq> Some ''r1'')"
    using sample_table by (simp add: cost_of_def tolower_eval)
  have b: "cost_of ''r2'' ''abc'' \<in> set [cost_of ''r1'' ''INF'', cost_of ''r2'' ''abc''] \<and>
      value_attr (cost_of ''r2'' ''abc'') = Some ''abc'' \<and> map tolower ''abc'' \<noteq> ''inf'' \<and>
      \<not> sample_is_float (map tolower ''abc'')"
    by (simp add: cost_of_def tolower_eval sample_is_float_def)
  from parse_costmap_inf_and_errors [where isf = sample_is_float and sd = sample_stod
      and pre = "[]" and c = "cost_of ''r1'' ''INF''" and post = "[cost_of ''r2'' ''3000000000'']"
      and m = ?m and a = "''r1''" and v = "''INF''"
      and b = "cost_of ''r2'' ''abc''" and w = "''abc''"
      and cs = "[cost_of ''r1'' ''INF'', cost_of ''r2'' ''abc'']"]
    a b
  have "?m ''r1'' = Some INT_MAX \<and> INT_MAX = 2147483647"
    and "parse_costmap sample_is_float sample_stod
      [cost_of ''r1'' ''INF'', cost_of ''r2'' ''abc''] = None"
    by blast+
  then show ?thesis
    using sample_table by simp
qed

text \<open>
  C3 as stated fails: the cost recorded for \<open>INF\<close> is 2147483647, and the same cost table
  holds the greater finite cost 3000000000 for another agent.
\<close>

theorem parse_costmap_inf_counterexample:
  "map_option (\<lambda>m. (m ''r1'', m ''r2''))
     (parse_costmap sample_is_float sample_stod
        [cost_of ''r1'' ''INF'', cost_of ''r2'' ''3000000000''])
     = Some (Some 2147483647, Some 3000000000) \<and> (2147483647 :: real) < 3000000000"
  by (simp add: sample_table INT_MAX_def)

section \<open>Properties of the A* search\<close>

lemma getNode_id: "getNode g i = Some n \<Longrightarrow> n_id n = i"
  by (auto simp: getNode_def find_Some_iff)

lemma find_replace:
  "find (\<lambda>n. n_id n = i) (map (\<lambda>m. if n_id m = n_id n then n else m) xs) =
     (if i = n_id n then (case find (\<lambda>m. n_id m = i) xs of None \<Rightarrow> None | Some _ \<Rightarrow> Some n)
      else find (\<lambda>m. n_id m = i) xs)"
  by (induction xs) auto

lemma getNode_put_node:
  "getNode (put_node n g) i =
     (if i = n_id n then (case getNode g i of None \<Rightarrow> None | Some _ \<Rightarrow> Some n) else getNode g i)"
  by (simp add: getNode_def put_node_def find_replace)

lemma edges_put_node: "dg_edges (put_node n g) = dg_edges g"
  by (simp add: put_node_def)

lemma getSuccessorEdges_cong: "dg_edges g' = dg_edges g \<Longrightarrow> getSuccessorEdges g' i = getSuccessorEdges g i"
  by (simp add: getSuccessorEdges_def)

lemma open_state_put_node:
  assumes "\<forall>i\<in>R. open_state assembly g i"
    and "\<not> isGoal assembly n" and "resolvable assembly n"
  shows "\<forall>i\<in>R. open_state assembly (put_node n g) i"
  using assms by (auto simp: open_state_def getNode_put_node split: option.splits)

lemma isGoal_subassemblies:
  "subassemblies (n_data n') = subassemblies (n_data n) \<Longrightarrow> isGoal a n' = isGoal a n"
  by (simp add: isGoal_def)

lemma resolvable_subassemblies:
  "subassemblies (n_data n') = subassemblies (n_data n) \<Longrightarrow> resolvable a n' = resolvable a n"
  by (simp add: resolvable_def)

lemma update_scores_resolvable:
  assumes "resolvable assembly n"
  shows "\<exists>n'. update_scores log2f assembly n = Inr n' \<and> n_id n' = n_id n \<and>
     subassemblies (n_data n') = subassemblies (n_data n)"
proof -
  from assms have "\<forall>x\<in>set (subassemblies (n_data n)). getNode assembly (snd x) \<noteq> None"
    by (simp add: resolvable_def list_all_iff)
  from max_length_loop_Max [OF this, of 0] show ?thesis
    by (simp add: update_scores_def calc_hscore_def set_h_score_def set_f_score_def)
qed

lemma push_children_ok:
  assumes "\<forall>i\<in>R. open_state assembly g i" and "current \<in> R"
    and "\<forall>e\<in>set es. e_destination e \<in> R"
  shows "\<exists>g'. push_children log2f assembly current es g openSet =
            Inr (g', openSet @ map e_destination es)
          \<and> dg_edges g' = dg_edges g \<and> (\<forall>i\<in>R. open_state assembly g' i)"
  using assms
proof (induction es arbitrary: g openSet)
  case Nil
  then show ?case by simp
next
  case (Cons edge rest)
  from Cons.prems obtain child where child: "getNode g (e_destination edge) = Some child"
    and child_ok: "\<not> isGoal assembly child" "resolvable assembly child"
    by (auto simp: open_state_def split: option.splits)
  from Cons.prems obtain cur where cur: "getNode g current = Some cur"
    by (auto simp: open_state_def split: option.splits)
  let ?c1 = "set_g_score (dadd (g_score (n_data cur)) (cost (e_data edge))) child"
  have c1: "resolvable assembly ?c1" "n_id ?c1 = e_destination edge"
      "subassemblies (n_data ?c1) = subassemblies (n_data child)"
    using child_ok child by (simp_all add: resolvable_def set_g_score_def getNode_id)
  from update_scores_resolvable [OF c1(1), of log2f] obtain child' where
    child': "update_scores log2f assembly ?c1 = Inr child'" "n_id child' = e_destination edge"
      "subassemblies (n_data child') = subassemblies (n_data child)"
    using c1 by auto
  have ok': "\<not> isGoal assembly child'" "resolvable assembly child'"
    by (simp_all add: child_ok isGoal_subassemblies [OF child'(3)]
        resolvable_subassemblies [OF child'(3)])
  have inv': "\<forall>i\<in>R. open_state assembly (put_node child' g) i"
    by (rule open_state_put_node [OF Cons.prems(1) ok'])
  from Cons.IH [OF inv' Cons.prems(2), of "openSet @ [n_id child']"] Cons.prems(3)
  obtain g' where g': "push_children log2f assembly current rest (put_node child' g)
        (openSet @ [n_id child']) = Inr (g', (openSet @ [n_id child']) @ map e_destination rest)"
      "dg_edges g' = dg_edges (put_node child' g)" "\<forall>i\<in>R. open_state assembly g' i"
    by auto
  have "push_children log2f assembly current (edge # rest) g openSet =
      push_children log2f assembly current rest (put_node child' g) (openSet @ [n_id child'])"
    by (simp only: push_children.simps child cur child'(1) option.case sum.case)
  also note g'(1)
  finally have "push_children log2f assembly current (edge # rest) g openSet =
      Inr (g', openSet @ map e_destination (edge # rest))"
    by (simp add: child'(2))
  moreover have "dg_edges g' = dg_edges g"
    using g'(2) by (simp add: edges_put_node)
  ultimately show ?case
    using g'(3) by blast
qed

lemma sum_list_remove_nth:
  fixes xs :: "nat list"
  assumes "k < length xs"
  shows "sum_list (take k xs @ drop (Suc k) xs) + xs ! k = sum_list xs"
proof -
  have "xs = take k xs @ xs ! k # drop (Suc k) xs"
    using assms by (simp add: id_take_nth_drop)
  then have "sum_list xs = sum_list (take k xs @ xs ! k # drop (Suc k) xs)"
    by simp
  then show ?thesis by simp
qed

lemma search_loop_Nil:
  "search_loop top_index log2f assembly g [] current popped = Some (Inr (current, g, [], popped))"
  by (subst search_loop.simps) simp

lemma search_loop_exhausts:
  assumes pick: "\<forall>fs. fs \<noteq> [] \<longrightarrow> top_index fs < length fs"
    and closed: "closed_under_edges g0 R"
    and fin: "finitely_unfolding g0 R w"
  shows "dg_edges g = dg_edges g0 \<Longrightarrow> \<forall>i\<in>R. open_state assembly g i \<Longrightarrow> set openSet \<subseteq> R \<Longrightarrow>
     openSet \<noteq> [] \<Longrightarrow>
     \<exists>cur g' ps. search_loop top_index log2f assembly g openSet current popped =
         Some (Inr (Some cur, g', [], popped @ ps @ [cur]))
       \<and> cur \<in> R \<and> (\<forall>i\<in>R. open_state assembly g' i)"
proof (induction "sum_list (map w openSet)" arbitrary: g openSet current popped rule: less_induct)
  case less
  let ?k = "top_index (map (f_score_at g) openSet)"
  let ?cur = "openSet ! ?k"
  let ?open1 = "take ?k openSet @ drop (Suc ?k) openSet"
  from pick less.prems(4) have k: "?k < length openSet"
    by (metis length_map map_is_Nil_conv)
  with less.prems(3) have curR: "?cur \<in> R"
    by (meson nth_mem subsetD)
  with less.prems(2) obtain node where node: "getNode g ?cur = Some node"
    and node_ok: "\<not> isGoal assembly node" "resolvable assembly node"
    by (auto simp: open_state_def split: option.splits)
  let ?g1 = "put_node (set_marked True node) g"
  have "\<not> isGoal assembly (set_marked True node)" "resolvable assembly (set_marked True node)"
    using node_ok by (simp_all add: isGoal_def resolvable_def set_marked_def)
  then have inv1: "\<forall>i\<in>R. open_state assembly ?g1 i"
    by (rule open_state_put_node [OF less.prems(2)])
  have edges1: "dg_edges ?g1 = dg_edges g0"
    using less.prems(1) by (simp add: edges_put_node)
  let ?es = "getSuccessorEdges ?g1 ?cur"
  have es: "?es = getSuccessorEdges g0 ?cur"
    using edges1 by (rule getSuccessorEdges_cong)
  have dests: "\<forall>e\<in>set ?es. e_destination e \<in> R"
    using closed curR unfolding es closed_under_edges_def by blast
  from push_children_ok [OF inv1 curR dests, of log2f ?open1]
  obtain g2 where g2: "push_children log2f assembly ?cur ?es ?g1 ?open1 =
        Inr (g2, ?open1 @ map e_destination ?es)"
      "dg_edges g2 = dg_edges ?g1" "\<forall>i\<in>R. open_state assembly g2 i"
    by blast
  let ?open2 = "?open1 @ map e_destination ?es"
  have step: "search_loop top_index log2f assembly g openSet current popped =
      search_loop top_index log2f assembly g2 ?open2 (Some ?cur) (popped @ [?cur])"
    apply (subst search_loop.simps [of top_index log2f assembly g openSet current popped])
    using less.prems(4) k node node_ok(1) g2(1)
    apply (simp add: Let_def)
    done
  show ?case
  proof (cases "?open2 = []")
    case True
    have "search_loop top_index log2f assembly g2 ?open2 (Some ?cur) (popped @ [?cur]) =
        Some (Inr (Some ?cur, g2, [], popped @ [] @ [?cur]))"
      unfolding True by (simp add: search_loop_Nil)
    with step curR g2(3) show ?thesis by metis
  next
    case False
    have "sum_list (map w ?open1) + w ?cur = sum_list (map w openSet)"
      using sum_list_remove_nth [of ?k "map w openSet"] k
      by (simp add: take_map drop_map)
    moreover have "sum_list (map (\<lambda>e. w (e_destination e)) ?es) < w ?cur"
      using fin curR unfolding es finitely_unfolding_def by blast
    ultimately have less': "sum_list (map w ?open2) < sum_list (map w openSet)"
      by (simp add: comp_def)
    have sub2: "set ?open2 \<subseteq> R"
    proof -
      have "set (take ?k openSet) \<subseteq> set openSet" "set (drop (Suc ?k) openSet) \<subseteq> set openSet"
        by (rule set_take_subset, rule set_drop_subset)
      with less.prems(3) dests show ?thesis by auto
    qed
    have e2: "dg_edges g2 = dg_edges g0"
      using g2(2) edges1 by simp
    from less.hyps [OF less' e2 g2(3) sub2 False, of "Some ?cur" "popped @ [?cur]"]
    obtain cur' g' ps where
      r: "search_loop top_index log2f assembly g2 ?open2 (Some ?cur) (popped @ [?cur]) =
          Some (Inr (Some cur', g', [], (popped @ [?cur]) @ ps @ [cur']))"
        "cur' \<in> R" "\<forall>i\<in>R. open_state assembly g' i"
      by blast
    have "(popped @ [?cur]) @ ps @ [cur'] = popped @ (?cur # ps) @ [cur']" by simp
    with step r show ?thesis by metis
  qed
qed

text \<open>
  C8. Let the states reachable from the root lie in a set that is closed under the edges
  of the search graph, unfolds finitely, and holds no goal. Then \<open>search\<close> returns,
  with the open set empty, and what it returns is not null and not a goal: it is the node
  that was popped last.
\<close>

theorem search_without_goal_returns_last_popped:
  assumes pick: "\<forall>fs. fs \<noteq> [] \<longrightarrow> top_index fs < length fs"
    and root: "root_id \<in> R"
    and closed: "closed_under_edges graph R"
    and fin: "finitely_unfolding graph R w"
    and no_goal: "\<forall>i\<in>R. open_state assembly graph i"
  shows "\<exists>cur graph' ps node.
     search top_index log2f assembly graph root_id = Some (Inr (Some cur, graph', [], ps @ [cur]))
     \<and> getNode graph' cur = Some node \<and> \<not> isGoal assembly node"
proof -
  from no_goal root obtain r where r: "getNode graph root_id = Some r"
    and r_ok: "\<not> isGoal assembly r" "resolvable assembly r"
    by (auto simp: open_state_def split: option.splits)
  from update_scores_resolvable [OF r_ok(2), of log2f] obtain r' where
    r': "update_scores log2f assembly r = Inr r'"
      "subassemblies (n_data r') = subassemblies (n_data r)"
    by blast
  have ok': "\<not> isGoal assembly r'" "resolvable assembly r'"
    by (simp_all add: r_ok isGoal_subassemblies [OF r'(2)] resolvable_subassemblies [OF r'(2)])
  have inv: "\<forall>i\<in>R. open_state assembly (put_node r' graph) i"
    by (rule open_state_put_node [OF no_goal ok'])
  have e: "dg_edges (put_node r' graph) = dg_edges graph"
    by (rule edges_put_node)
  from search_loop_exhausts [OF pick closed fin e inv, of "[root_id]" log2f None "[]"] root
  obtain cur g' ps where
    res: "search_loop top_index log2f assembly (put_node r' graph) [root_id] None [] =
        Some (Inr (Some cur, g', [], [] @ ps @ [cur]))"
      "cur \<in> R" "\<forall>i\<in>R. open_state assembly g' i"
    by auto
  from res(2,3) obtain node where "getNode g' cur = Some node" "\<not> isGoal assembly node"
    by (auto simp: open_state_def split: option.splits)
  moreover have "search top_index log2f assembly graph root_id =
      search_loop top_index log2f assembly (put_node r' graph) [root_id] None []"
    by (simp only: search_def r r'(1) option.case sum.case)
  ultimately show ?thesis
    using res(1) by auto
qed


lemma dead_end_run:
  "map_option (map_sum id (\<lambda>r. (fst r, fst (snd (snd r)), snd (snd (snd r)))))
     (search first_min log2f_libm dead_end_assembly dead_end_search 0) =
   Some (Inr (Some 1, [], [0, 1]))"
  by (simp add: search_def dead_end_assembly_def dead_end_search_def getNode_def mk_state_def
      mk_node_def mk_edge_def update_scores_def calc_hscore_def calc_fscore_def set_h_score_def
      set_f_score_def put_node_def search_loop.simps f_score_at_def isGoal_def hasSuccessor_def
      log2f_libm_def
      successorNodes_def getSuccessorEdges_def set_marked_def set_g_score_def Let_def)

lemma first_min_less: "fs \<noteq> [] \<Longrightarrow> first_min fs < length fs"
  by (induction fs rule: first_min.induct) (auto simp: Let_def)

theorem search_without_goal_returns_last_popped_witness:
  "\<exists>cur graph' ps node.
     search first_min log2f_libm dead_end_assembly dead_end_search 0 =
       Some (Inr (Some cur, graph', [], ps @ [cur]))
     \<and> getNode graph' cur = Some node \<and> \<not> isGoal dead_end_assembly node
     \<and> map_option (map_sum id (\<lambda>r. (fst r, fst (snd (snd r)), snd (snd (snd r)))))
          (search first_min log2f_libm dead_end_assembly dead_end_search 0) =
        Some (Inr (Some 1, [], [0, 1]))"
proof -
  have pick: "\<forall>fs. fs \<noteq> [] \<longrightarrow> first_min fs < length fs"
    by (simp add: first_min_less)
  have root: "(0::nat) \<in> {0, 1}" by simp
  have closed: "closed_under_edges dead_end_search {0, 1}"
    by (simp add: closed_under_edges_def dead_end_search_def getSuccessorEdges_def)
  have fin: "finitely_unfolding dead_end_search {0, 1} (\<lambda>i. 2 - i)"
    by (simp add: finitely_unfolding_def dead_end_search_def getSuccessorEdges_def)
  have no_goal: "\<forall>i\<in>{0, 1}. open_state dead_end_assembly dead_end_search i"
    by (simp add: open_state_def dead_end_search_def dead_end_assembly_def getNode_def
        mk_state_def mk_node_def mk_edge_def isGoal_def resolvable_def hasSuccessor_def
        successorNodes_def getSuccessorEdges_def)
  from search_without_goal_returns_last_popped [OF pick root closed fin no_goal] dead_end_run
  show ?thesis by blast
qed

section \<open>Properties of the combinator\<close>

subsection \<open>One step of the permutation algorithm\<close>

lemma successively_nth:
  "successively P xs \<Longrightarrow> Suc j < length xs \<Longrightarrow> P (xs ! j) (xs ! Suc j)"
proof (induction xs arbitrary: j)
  case Nil
  then show ?case by simp
next
  case (Cons x xs)
  show ?case
  proof (cases j)
    case 0
    with Cons.prems show ?thesis by (cases xs) auto
  next
    case (Suc j')
    with Cons.prems have "successively P xs" "Suc j' < length xs"
      by (cases xs; simp)+
    with Cons.IH Suc show ?thesis by simp
  qed
qed

lemma find_pivot_none:
  "successively (\<lambda>a b. \<not> lt a b) xs \<Longrightarrow> k < length xs \<Longrightarrow> find_pivot lt xs k = None"
  by (induction k) (auto dest: successively_nth)

lemma find_pivot_found:
  assumes "successively (\<lambda>a b. \<not> lt a b) (y # t)" and "lt x y" and "j \<le> length t"
  shows "find_pivot lt (p @ x # y # t) (Suc (length p + j)) = Some (length p)"
  using assms(3)
proof (induction j)
  case 0
  with assms(2) show ?case by (simp add: nth_append)
next
  case (Suc j)
  then have "Suc j < length (y # t)" by simp
  with assms(1) have "\<not> lt ((y # t) ! j) ((y # t) ! Suc j)"
    by (rule successively_nth)
  moreover have "(p @ x # y # t) ! (Suc (length p + j)) = (y # t) ! j"
    by (simp add: nth_append)
  moreover have "(p @ x # y # t) ! (Suc (Suc (length p + j))) = (y # t) ! Suc j"
    by (simp add: nth_append)
  ultimately show ?case
    using Suc by simp
qed

lemma find_swap_found:
  assumes "lt x z" and "\<forall>w\<in>set r. \<not> lt x w" and "j \<le> length r"
  shows "find_swap lt (A @ z # r) x (Suc (length A + j)) = length A"
  using assms(3)
proof (induction j)
  case 0
  with assms(1) show ?case by (simp add: nth_append)
next
  case (Suc j)
  then have "j < length r" by simp
  then have "r ! j \<in> set r" by simp
  with assms(2) have "\<not> lt x (r ! j)" by blast
  moreover have "(A @ z # r) ! (Suc (length A + j)) = r ! j"
    by (simp add: nth_append)
  ultimately show ?case
    using Suc by simp
qed

lemma permutation_step_last:
  assumes "successively (\<lambda>a b. \<not> lt a b) xs"
  shows "permutation_step lt xs = (False, rev xs)"
proof (cases xs)
  case Nil
  then show ?thesis by (simp add: permutation_step_def)
next
  case (Cons a as)
  with find_pivot_none [OF assms, of "length xs - 1"] show ?thesis
    by (simp add: permutation_step_def)
qed

lemma permutation_step_swap:
  assumes desc: "successively (\<lambda>a b. \<not> lt a b) (m @ z # r)"
    and first: "lt x (hd (m @ [z]))"
    and xz: "lt x z"
    and rest: "\<forall>w\<in>set r. \<not> lt x w"
  shows "permutation_step lt (p @ x # m @ z # r) = (True, p @ z # rev r @ x # rev m)"
proof -
  let ?a = "p @ x # m @ z # r"
  obtain y t where yt: "m @ z # r = y # t" and y: "y = hd (m @ [z])"
    by (cases m) auto
  have len: "length ?a - 1 = Suc (length p + length t)"
    using yt by (metis add_Suc_right diff_Suc_1 length_Cons length_append)
  have "find_pivot lt (p @ x # y # t) (Suc (length p + length t)) = Some (length p)"
    using desc first unfolding yt y [symmetric] by (intro find_pivot_found) simp_all
  then have pivot: "find_pivot lt ?a (length ?a - 1) = Some (length p)"
    unfolding len using yt by simp
  have "find_swap lt ((p @ x # m) @ z # r) x (Suc (length (p @ x # m) + length r)) = length (p @ x # m)"
    using xz rest by (intro find_swap_found) simp_all
  moreover have "(p @ x # m) @ z # r = ?a"
    by simp
  moreover have "length (p @ x # m) = Suc (length p + length m)"
    by simp
  moreover have "Suc (Suc (length p + length m) + length r) = length ?a"
    by simp
  ultimately have swap: "find_swap lt ?a x (length ?a) = Suc (length p + length m)"
    by metis
  have ai: "?a ! length p = x" by simp
  have ai2: "?a ! Suc (length p + length m) = z"
    by (simp add: nth_append)
  have upd: "?a[length p := z, Suc (length p + length m) := x] = p @ z # m @ x # r"
    by (simp add: list_update_append)
  have "permutation_step lt ?a =
      (True, take (Suc (length p)) (p @ z # m @ x # r) @
             rev (drop (Suc (length p)) (p @ z # m @ x # r)))"
    by (simp only: permutation_step_def pivot option.case Let_def ai swap ai2 upd)
  then show ?thesis
    by simp
qed

subsection \<open>The loop of assignAgentsToActions\<close>

lemma sorted_rev_no_ascent:
  "sorted_wrt (<) (xs :: nat list) \<Longrightarrow> successively (\<lambda>a b. \<not> a < b) (rev xs)"
proof (induction xs)
  case Nil
  then show ?case by simp
next
  case (Cons x xs)
  then have "successively (\<lambda>a b. \<not> a < b) (rev xs)" by simp
  moreover have "xs \<noteq> [] \<Longrightarrow> \<not> last (rev xs) < x"
    using Cons.prems by (cases xs) (auto simp: last_rev)
  ultimately show ?case
    by (cases "rev xs = []") (auto simp: successively_append_iff)
qed

lemma next_permutation_last:
  "sorted_wrt (<) e \<Longrightarrow> next_permutation (rev e) = (False, e)"
  unfolding next_permutation_def
  using permutation_step_last [OF sorted_rev_no_ascent] by fastforce

lemma next_permutation_swap:
  assumes "sorted_wrt (<) (l @ x # y # r)"
  shows "next_permutation (q @ x # rev r @ y # rev l) = (True, q @ y # l @ x # r)"
proof -
  from assms have s: "sorted_wrt (<) (l @ y # r)"
    by (auto simp: sorted_wrt_append)
  have desc: "successively (\<lambda>a b. \<not> a < b) (rev r @ y # rev l)"
    using sorted_rev_no_ascent [OF s] by simp
  have first: "x < hd (rev r @ [y])"
    using assms by (cases "rev r") (auto simp: sorted_wrt_append hd_append dest: hd_in_set)
  have xy: "x < y" using assms by (auto simp: sorted_wrt_append)
  have rest: "\<forall>w\<in>set (rev l). \<not> x < w"
    using assms by (fastforce simp: sorted_wrt_append)
  from permutation_step_swap [of "\<lambda>a b. a < b" "rev r" y "rev l" x q, OF desc first xy rest]
  show ?thesis
    by (simp add: next_permutation_def)
qed

lemma build_assignment_ok:
  "length ags \<le> length d \<Longrightarrow> \<forall>j\<in>set (take (length ags) d). j < length acts \<Longrightarrow>
   \<exists>a. build_assignment ags acts d acc = Inr a"
proof (induction ags acts d acc rule: build_assignment.induct)
  case (1 cur_actions d assignment)
  then show ?case by simp
next
  case (2 a cur_agents cur_actions assignment)
  then show ?case by simp
next
  case (3 a cur_agents cur_actions di d assignment)
  then show ?case by simp
qed

lemma assignment_loop_step:
  assumes "build_assignment ags acts d [] = Inr a"
  shows "assignment_loop ags acts d acc =
     continue_assignments ags acts (take (length ags) d @ rev (drop (length ags) d)) acc [a]"
  by (subst assignment_loop.simps) (simp add: assms continue_assignments_def Let_def)

lemma continue_assignments_true:
  "next_permutation d = (True, d') \<Longrightarrow>
   continue_assignments ags acts d acc xs = assignment_loop ags acts d' (acc @ xs)"
  by (simp add: continue_assignments_def)

lemma continue_assignments_append:
  "continue_assignments ags acts d (acc @ xs) ys = continue_assignments ags acts d acc (xs @ ys)"
  by (simp only: continue_assignments_def append_assoc)

lemma assignment_loop_segment:
  "sorted_wrt (<) e \<Longrightarrow> k \<le> length e \<Longrightarrow> length ags = length q + k \<Longrightarrow>
   \<forall>j\<in>set (q @ e). j < length acts \<Longrightarrow>
   \<exists>xs. length xs = falling k (length e) \<and>
     (\<forall>acc. assignment_loop ags acts (q @ e) acc =
        continue_assignments ags acts (q @ rev e) acc xs)"
proof (induction k arbitrary: q e)
  case 0
  have "length ags \<le> length (q @ e)" using 0 by simp
  moreover have "\<forall>j\<in>set (take (length ags) (q @ e)). j < length acts"
    using 0 by simp
  ultimately obtain a where a: "build_assignment ags acts (q @ e) [] = Inr a"
    using build_assignment_ok by blast
  have "\<forall>acc. assignment_loop ags acts (q @ e) acc =
      continue_assignments ags acts (q @ rev e) acc [a]"
    using assignment_loop_step [OF a] 0 by simp
  then show ?case
    by (intro exI [of _ "[a]"]) simp
next
  case (Suc k)
  have inner: "sorted_wrt (<) (l @ x # r) \<Longrightarrow> k \<le> length (l @ r) \<Longrightarrow>
      \<forall>j\<in>set (q @ l @ x # r). j < length acts \<Longrightarrow>
      \<exists>xs. length xs = Suc (length r) * falling k (length (l @ r)) \<and>
        (\<forall>acc. assignment_loop ags acts (q @ x # l @ r) acc =
           continue_assignments ags acts (q @ rev (l @ x # r)) acc xs)" for l x r
  proof (induction r arbitrary: l x)
    case Nil
    have "sorted_wrt (<) l" using Nil by (simp add: sorted_wrt_append)
    moreover have "k \<le> length l" using Nil by simp
    moreover have "length ags = length (q @ [x]) + k" using Suc.prems by simp
    moreover have "\<forall>j\<in>set ((q @ [x]) @ l). j < length acts" using Nil by auto
    ultimately obtain xs where xs: "length xs = falling k (length l)"
        "\<forall>acc. assignment_loop ags acts ((q @ [x]) @ l) acc =
           continue_assignments ags acts ((q @ [x]) @ rev l) acc xs"
      using Suc.IH [of l "q @ [x]"] by blast
    show ?case
      using xs by (intro exI [of _ xs]) simp
  next
    case (Cons y r)
    have "sorted_wrt (<) (l @ y # r)" using Cons.prems by (auto simp: sorted_wrt_append)
    moreover have "k \<le> length (l @ y # r)" using Cons.prems by simp
    moreover have "length ags = length (q @ [x]) + k" using Suc.prems by simp
    moreover have "\<forall>j\<in>set ((q @ [x]) @ l @ y # r). j < length acts" using Cons.prems by auto
    ultimately obtain xs1 where xs1: "length xs1 = falling k (length (l @ y # r))"
        "\<forall>acc. assignment_loop ags acts ((q @ [x]) @ l @ y # r) acc =
           continue_assignments ags acts ((q @ [x]) @ rev (l @ y # r)) acc xs1"
      using Suc.IH [of "l @ y # r" "q @ [x]"] by blast
    have "sorted_wrt (<) ((l @ [x]) @ y # r)" using Cons.prems by simp
    moreover have "k \<le> length ((l @ [x]) @ r)" using Cons.prems by simp
    moreover have "\<forall>j\<in>set (q @ (l @ [x]) @ y # r). j < length acts" using Cons.prems by auto
    ultimately obtain xs2 where xs2: "length xs2 = Suc (length r) * falling k (length ((l @ [x]) @ r))"
        "\<forall>acc. assignment_loop ags acts (q @ y # (l @ [x]) @ r) acc =
           continue_assignments ags acts (q @ rev ((l @ [x]) @ y # r)) acc xs2"
      using Cons.IH [of "l @ [x]" y] by blast
    have swap: "next_permutation (q @ x # rev r @ y # rev l) = (True, q @ y # l @ x # r)"
      using Cons.prems(1) by (rule next_permutation_swap)
    have "assignment_loop ags acts (q @ x # l @ y # r) acc =
        continue_assignments ags acts (q @ rev (l @ x # y # r)) acc (xs1 @ xs2)" for acc
    proof -
      have "assignment_loop ags acts (q @ x # l @ y # r) acc =
          continue_assignments ags acts (q @ x # rev r @ y # rev l) acc xs1"
        using xs1(2) by simp
      also have "\<dots> = assignment_loop ags acts (q @ y # l @ x # r) (acc @ xs1)"
        using swap by (rule continue_assignments_true)
      also have "\<dots> = continue_assignments ags acts (q @ rev (l @ x # y # r)) (acc @ xs1) xs2"
        using xs2(2) by simp
      finally show ?thesis
        by (simp add: continue_assignments_append)
    qed
    moreover have "length (xs1 @ xs2) = Suc (length (y # r)) * falling k (length (l @ y # r))"
      using xs1(1) xs2(1) by simp
    ultimately show ?case
      by (intro exI [of _ "xs1 @ xs2"]) simp
  qed
  from Suc.prems obtain x r where e: "e = x # r"
    by (cases e) auto
  have "sorted_wrt (<) ([] @ x # r)" "k \<le> length ([] @ r)"
      "\<forall>j\<in>set (q @ [] @ x # r). j < length acts"
    using Suc.prems e by simp_all
  from inner [OF this] obtain xs where
    "length xs = Suc (length r) * falling k (length r)"
    "\<forall>acc. assignment_loop ags acts (q @ x # r) acc =
       continue_assignments ags acts (q @ rev (x # r)) acc xs"
    by auto
  then show ?case
    unfolding e by (intro exI [of _ xs]) simp
qed

lemma assignment_loop_count:
  assumes "length ags \<le> length acts"
  shows "\<exists>xs. length xs = falling (length ags) (length acts) \<and>
     (\<forall>acc. assignment_loop ags acts [0..<length acts] acc = Some (Inr (acc @ xs)))"
proof -
  have "sorted_wrt (<) [0..<length acts]"
    by (simp add: sorted_wrt_upt)
  moreover have "length ags \<le> length [0..<length acts]" using assms by simp
  moreover have "length ags = length ([] :: nat list) + length ags" by simp
  moreover have "\<forall>j\<in>set ([] @ [0..<length acts]). j < length acts" by simp
  ultimately obtain xs where xs: "length xs = falling (length ags) (length [0..<length acts])"
      "\<forall>acc. assignment_loop ags acts ([] @ [0..<length acts]) acc =
         continue_assignments ags acts ([] @ rev [0..<length acts]) acc xs"
    using assignment_loop_segment [of "[0..<length acts]" "length ags" ags "[]" acts] by blast
  have "next_permutation (rev [0..<length acts]) = (False, [0..<length acts])"
    by (rule next_permutation_last) (simp add: sorted_wrt_upt)
  with xs show ?thesis
    by (intro exI [of _ xs]) (simp add: continue_assignments_def)
qed

subsection \<open>The loop of generateAgentCombinationSets\<close>

lemma sorted_no_descent:
  "sorted (xs :: bool list) \<Longrightarrow> successively (\<lambda>a b. \<not> b < a) xs"
proof (induction xs)
  case Nil
  then show ?case by simp
next
  case (Cons x xs)
  then show ?case by (cases xs) auto
qed

lemma prev_permutation_last:
  "prev_permutation (replicate b False @ replicate a True) =
     (False, replicate a True @ replicate b False)"
proof -
  have "sorted (replicate b False @ replicate a True)"
    by (simp add: sorted_append)
  then have "successively (\<lambda>x y. \<not> y < x) (replicate b False @ replicate a True)"
    by (rule sorted_no_descent)
  from permutation_step_last [OF this] show ?thesis
    by (simp add: prev_permutation_def)
qed

lemma prev_permutation_swap:
  "prev_permutation (q @ True # replicate (Suc b) False @ replicate a True) =
     (True, q @ False # replicate (Suc a) True @ replicate b False)"
proof -
  have "sorted (replicate b False @ False # replicate a True)"
    by (simp add: sorted_append)
  then have desc: "successively (\<lambda>x y. \<not> y < x) (replicate b False @ False # replicate a True)"
    by (rule sorted_no_descent)
  have first: "hd (replicate b False @ [False]) < True"
    by (cases b) simp_all
  have xz: "False < True" by simp
  have rest: "\<forall>w\<in>set (replicate a True). \<not> w < True" by simp
  from permutation_step_swap [of "\<lambda>x y. y < x" "replicate b False" False "replicate a True" True q,
      OF desc first xz rest]
  have "prev_permutation (q @ True # replicate b False @ False # replicate a True) =
      (True, q @ False # replicate a True @ True # replicate b False)"
    by (simp add: prev_permutation_def)
  moreover have "replicate b False @ False # replicate a True =
      replicate (Suc b) False @ replicate a True"
    by (simp add: replicate_append_same)
  moreover have "replicate a True @ True # replicate b False =
      replicate (Suc a) True @ replicate b False"
    by (simp add: replicate_append_same)
  ultimately show ?thesis by simp
qed

lemma length_selected:
  "length agts = length v \<Longrightarrow> length (selected agts v) = length (filter (\<lambda>t. t) v)"
  unfolding selected_def
  by (induction agts v rule: list_induct2) simp_all

lemma agent_combination_loop_step:
  "agent_combination_loop agts v combos = continue_combinations agts v combos [selected agts v]"
  by (subst agent_combination_loop.simps) (simp add: continue_combinations_def Let_def)

lemma continue_combinations_true:
  "prev_permutation v = (True, v') \<Longrightarrow>
   continue_combinations agts v combos xs = agent_combination_loop agts v' (combos @ xs)"
  by (simp add: continue_combinations_def)

lemma continue_combinations_append:
  "ys \<noteq> [] \<Longrightarrow>
   continue_combinations agts v (combos @ xs) ys = continue_combinations agts v combos (xs @ ys)"
proof -
  assume "ys \<noteq> []"
  then have "last (xs @ ys) = last ys" by simp
  then show ?thesis
    by (simp only: continue_combinations_def append_assoc)
qed

lemma agent_combination_loop_segment:
  "a + b = n \<Longrightarrow> length agts = length q + n \<Longrightarrow>
   \<exists>xs. length xs = (n choose a) \<and> xs \<noteq> [] \<and>
     (\<forall>x\<in>set xs. length x = length (filter (\<lambda>t. t) q) + a) \<and>
     (\<forall>combos. agent_combination_loop agts (q @ replicate a True @ replicate b False) combos =
        continue_combinations agts (q @ replicate b False @ replicate a True) combos xs)"
proof (induction n arbitrary: a b q)
  case 0
  then have "length (selected agts q) = length (filter (\<lambda>t. t) q)"
    by (simp add: length_selected)
  with 0 show ?case
    by (intro exI [of _ "[selected agts q]"]) (simp add: agent_combination_loop_step)
next
  case (Suc n)
  show ?case
  proof (cases "a = 0 \<or> b = 0")
    case True
    let ?v = "q @ replicate a True @ replicate b False"
    have v: "q @ replicate b False @ replicate a True = ?v"
      using True by auto
    have "length agts = length ?v" using Suc.prems by simp
    then have "length (selected agts ?v) = length (filter (\<lambda>t. t) q) + a"
      by (simp add: length_selected)
    moreover have "Suc n choose a = 1"
      using True Suc.prems(1) by auto
    ultimately show ?thesis
      unfolding v
      by (intro exI [of _ "[selected agts ?v]"]) (simp add: agent_combination_loop_step)
  next
    case False
    then obtain a' b' where ab: "a = Suc a'" "b = Suc b'"
      by (metis not0_implies_Suc)
    have "a' + b = n" "length agts = length (q @ [True]) + n"
      using Suc.prems ab by simp_all
    from Suc.IH [OF this] obtain xs1 where xs1: "length xs1 = (n choose a')" "xs1 \<noteq> []"
        "\<forall>x\<in>set xs1. length x = length (filter (\<lambda>t. t) (q @ [True])) + a'"
        "\<forall>combos. agent_combination_loop agts ((q @ [True]) @ replicate a' True @ replicate b False) combos =
           continue_combinations agts ((q @ [True]) @ replicate b False @ replicate a' True) combos xs1"
      by blast
    have "a + b' = n" "length agts = length (q @ [False]) + n"
      using Suc.prems ab by simp_all
    from Suc.IH [OF this] obtain xs2 where xs2: "length xs2 = (n choose a)" "xs2 \<noteq> []"
        "\<forall>x\<in>set xs2. length x = length (filter (\<lambda>t. t) (q @ [False])) + a"
        "\<forall>combos. agent_combination_loop agts ((q @ [False]) @ replicate a True @ replicate b' False) combos =
           continue_combinations agts ((q @ [False]) @ replicate b' False @ replicate a True) combos xs2"
      by blast
    have swap: "prev_permutation (q @ True # replicate (Suc b') False @ replicate a' True) =
        (True, q @ False # replicate (Suc a') True @ replicate b' False)"
      by (rule prev_permutation_swap)
    have "agent_combination_loop agts (q @ replicate a True @ replicate b False) combos =
        continue_combinations agts (q @ replicate b False @ replicate a True) combos (xs1 @ xs2)"
      for combos
    proof -
      have "agent_combination_loop agts (q @ replicate a True @ replicate b False) combos =
          continue_combinations agts (q @ True # replicate (Suc b') False @ replicate a' True) combos xs1"
        using xs1(4) ab by simp
      also have "\<dots> = agent_combination_loop agts
          (q @ False # replicate (Suc a') True @ replicate b' False) (combos @ xs1)"
        using swap by (rule continue_combinations_true)
      also have "\<dots> = continue_combinations agts (q @ replicate b False @ replicate a True)
          (combos @ xs1) xs2"
        using xs2(4) ab by simp
      finally show ?thesis
        using xs2(2) by (simp add: continue_combinations_append)
    qed
    moreover have "length (xs1 @ xs2) = (Suc n choose a)"
      using xs1(1) xs2(1) ab by simp
    moreover have "\<forall>x\<in>set (xs1 @ xs2). length x = length (filter (\<lambda>t. t) q) + a"
      using xs1(3) xs2(3) ab by auto
    ultimately show ?thesis
      using xs1(2) by (intro exI [of _ "xs1 @ xs2"]) simp
  qed
qed

lemma agent_combination_loop_count:
  assumes "k \<le> length agts"
  shows "\<exists>xs. length xs = (length agts choose k) \<and> (\<forall>x\<in>set xs. length x = k) \<and>
     agent_combination_loop agts (replicate k True @ replicate (length agts - k) False) [] =
       Some (xs, last xs)"
proof -
  have "k + (length agts - k) = length agts" "length agts = length ([] :: bool list) + length agts"
    using assms by simp_all
  from agent_combination_loop_segment [OF this] obtain xs where
    xs: "length xs = (length agts choose k)" "\<forall>x\<in>set xs. length x = k"
      "\<forall>combos. agent_combination_loop agts
          ([] @ replicate k True @ replicate (length agts - k) False) combos =
         continue_combinations agts ([] @ replicate (length agts - k) False @ replicate k True)
           combos xs"
    by auto
  show ?thesis
    using xs by (intro exI [of _ xs]) (simp add: continue_combinations_def prev_permutation_last)
qed

subsection \<open>The loop of generateActionCombinationSets\<close>

lemma find_next_Cons:
  "find_next g (n # nids) (i # is) (Suc k) =
     (case find_next g nids is k of
        Some j \<Rightarrow> Some (Suc j)
      | None \<Rightarrow> if i + 1 \<ge> numberOfSuccessors g n then None else Some 0)"
  by (induction k) simp_all

lemma next_indices:
  "length is = length nids \<Longrightarrow>
   map_option (\<lambda>next. take next is @ [is ! next + 1] @ replicate (length nids - Suc next) 0)
     (find_next g nids is (length nids)) = advance (map (numberOfSuccessors g) nids) is"
proof (induction "is" nids rule: list_induct2)
  case Nil
  then show ?case by simp
next
  case (Cons i "is" n nids)
  show ?case
  proof (cases "find_next g nids is (length nids)")
    case None
    with Cons show ?thesis
      by (simp add: find_next_Cons del: find_next.simps)
  next
    case (Some j)
    with Cons.IH have "advance (map (numberOfSuccessors g) nids) is =
        Some (take j is @ [is ! j + 1] @ replicate (length nids - Suc j) 0)"
      by simp
    with Some show ?thesis
      by (simp add: find_next_Cons del: find_next.simps)
  qed
qed

lemma zeros_below:
  "list_all2 (<) is ss \<Longrightarrow> list_all2 (<) (replicate (length ss) 0) (ss :: nat list)"
  by (induction "is" ss rule: list_all2_induct) auto

lemma odometer_rank_zeros: "odometer_rank ss (replicate (length ss) 0) = 0"
  by (induction ss) simp_all

lemma odometer_rank_bound:
  "list_all2 (<) is ss \<Longrightarrow> odometer_rank ss is < prod_list ss"
proof (induction "is" ss rule: list_all2_induct)
  case Nil
  then show ?case by simp
next
  case (Cons i "is" s ss)
  have "i * prod_list ss + odometer_rank ss is < i * prod_list ss + prod_list ss"
    using Cons by simp
  also have "\<dots> = Suc i * prod_list ss" by simp
  also have "\<dots> \<le> s * prod_list ss"
    using Cons by (intro mult_le_mono1) simp
  finally show ?case by simp
qed

lemma advance_None:
  "list_all2 (<) is ss \<Longrightarrow> advance ss is = None \<Longrightarrow> Suc (odometer_rank ss is) = prod_list ss"
proof (induction "is" ss rule: list_all2_induct)
  case Nil
  then show ?case by simp
next
  case (Cons i "is" s ss)
  from Cons.prems have n: "advance ss is = None" and s: "s = Suc i"
    using Cons.hyps(1) by (auto split: option.splits if_splits)
  from Cons.IH [OF n] show ?case
    using s by (simp add: algebra_simps)
qed

lemma advance_Some:
  "list_all2 (<) is ss \<Longrightarrow> advance ss is = Some is' \<Longrightarrow>
   list_all2 (<) is' ss \<and> odometer_rank ss is' = Suc (odometer_rank ss is)"
proof (induction "is" ss arbitrary: is' rule: list_all2_induct)
  case Nil
  then show ?case by simp
next
  case (Cons i "is" s ss)
  show ?case
  proof (cases "advance ss is")
    case None
    with Cons.prems have is': "is' = Suc i # replicate (length is) 0" and lt: "Suc i < s"
      by (auto split: if_splits)
    have len: "length is = length ss"
      using Cons.hyps(2) by (rule list_all2_lengthD)
    have "list_all2 (<) (replicate (length ss) 0) ss"
      using Cons.hyps(2) by (rule zeros_below)
    moreover from advance_None [OF Cons.hyps(2) None]
    have "Suc (odometer_rank ss is) = prod_list ss" .
    ultimately show ?thesis
      using is' lt len by (simp add: odometer_rank_zeros)
  next
    case (Some js)
    with Cons.prems have is': "is' = i # js" by simp
    from Cons.IH [OF Some] Cons.hyps(1) show ?thesis
      unfolding is' by simp
  qed
qed

lemma action_set_loop_ok:
  "list_all2 (\<lambda>ix n. ix < length (successorNodes g n)) is nids \<Longrightarrow>
   \<forall>n\<in>set nids. \<forall>a\<in>set (successorNodes g n). getNodeData g a \<noteq> None \<Longrightarrow>
   \<exists>temp. action_set_loop g nids is acc = Inr temp \<and> length temp = length acc + length nids"
proof (induction "is" nids arbitrary: acc rule: list_all2_induct)
  case Nil
  then show ?case by simp
next
  case (Cons ix "is" n nids)
  from Cons.hyps(1) have "successorNodes g n ! ix \<in> set (successorNodes g n)"
    by simp
  with Cons.prems obtain d where d: "getNodeData g (successorNodes g n ! ix) = Some d"
    by fastforce
  from Cons.prems have "\<forall>n\<in>set nids. \<forall>a\<in>set (successorNodes g n). getNodeData g a \<noteq> None"
    by simp
  from Cons.IH [OF this, of "acc @ [(name d, successorNodes g n ! ix)]"]
  show ?case
    using Cons.hyps(1) d by (simp add: Let_def)
qed

lemma action_combination_loop_count:
  assumes res: "\<forall>n\<in>set nids. \<forall>a\<in>set (successorNodes g n). getNodeData g a \<noteq> None"
  shows "list_all2 (<) is (map (numberOfSuccessors g) nids) \<Longrightarrow>
     \<exists>xs. length xs = prod_list (map (numberOfSuccessors g) nids)
                        - odometer_rank (map (numberOfSuccessors g) nids) is
       \<and> xs \<noteq> [] \<and> (\<forall>x\<in>set xs. length x = length nids)
       \<and> (\<forall>combos. action_combination_loop g nids is combos = Some (Inr (combos @ xs, last xs)))"
proof (induction "prod_list (map (numberOfSuccessors g) nids)
                    - odometer_rank (map (numberOfSuccessors g) nids) is"
       arbitrary: "is" rule: less_induct)
  case less
  let ?ss = "map (numberOfSuccessors g) nids"
  have len: "length is = length nids"
    using less.prems by (auto dest: list_all2_lengthD)
  have "list_all2 (\<lambda>ix n. ix < length (successorNodes g n)) is nids"
    using less.prems by (simp add: list_all2_map2 numberOfSuccessors_def)
  from action_set_loop_ok [OF this res, of "[]"] obtain temp where
    temp: "action_set_loop g nids is [] = Inr temp" "length temp = length nids"
    by auto
  have bound: "odometer_rank ?ss is < prod_list ?ss"
    using less.prems by (rule odometer_rank_bound)
  show ?case
  proof (cases "find_next g nids is (length nids)")
    case None
    with next_indices [OF len, of g] have "advance ?ss is = None" by simp
    from advance_None [OF less.prems this]
    have "prod_list ?ss - odometer_rank ?ss is = 1" by simp
    moreover have "action_combination_loop g nids is combos = Some (Inr (combos @ [temp], last [temp]))"
      for combos
      by (subst action_combination_loop.simps) (simp add: temp None)
    ultimately show ?thesis
      using temp(2) by (intro exI [of _ "[temp]"]) simp
  next
    case (Some nxt)
    let ?is' = "take nxt is @ [is ! nxt + 1] @ replicate (length nids - Suc nxt) 0"
    from next_indices [OF len, of g] Some have adv: "advance ?ss is = Some ?is'" by simp
    from advance_Some [OF less.prems adv]
    have ok': "list_all2 (<) ?is' ?ss" and rank': "odometer_rank ?ss ?is' = Suc (odometer_rank ?ss is)"
      by simp_all
    have "prod_list ?ss - odometer_rank ?ss ?is' < prod_list ?ss - odometer_rank ?ss is"
      using rank' bound by simp
    from less.hyps [OF this ok'] obtain xs where
      xs: "length xs = prod_list ?ss - odometer_rank ?ss ?is'" "xs \<noteq> []"
        "\<forall>x\<in>set xs. length x = length nids"
        "\<forall>combos. action_combination_loop g nids ?is' combos = Some (Inr (combos @ xs, last xs))"
      by blast
    have "action_combination_loop g nids is combos =
        Some (Inr (combos @ temp # xs, last (temp # xs)))" for combos
    proof -
      have "action_combination_loop g nids is combos =
          action_combination_loop g nids ?is' (combos @ [temp])"
        by (subst action_combination_loop.simps) (simp add: temp Some)
      with xs(4) xs(2) show ?thesis by simp
    qed
    moreover have "length (temp # xs) = prod_list ?ss - odometer_rank ?ss is"
      using xs(1) rank' bound by simp
    ultimately show ?thesis
      using xs(3) temp(2) by (intro exI [of _ "temp # xs"]) simp
  qed
qed

lemma generateActionCombinationSets_count:
  assumes "\<forall>n\<in>set nids. successorNodes g n \<noteq> []"
    and "\<forall>n\<in>set nids. \<forall>a\<in>set (successorNodes g n). getNodeData g a \<noteq> None"
  shows "\<exists>xs. length xs = prod_list (map (numberOfSuccessors g) nids)
       \<and> (\<forall>x\<in>set xs. length x = length nids)
       \<and> generateActionCombinationSets c g nids =
           Some (Inr (c\<lparr>temp_action_combinations := xs, temp_action_set := last xs\<rparr>))"
proof -
  let ?ss = "map (numberOfSuccessors g) nids"
  have "list_all2 (<) (replicate (length nids) 0) ?ss"
    using assms(1) by (simp add: list_all2_conv_all_nth numberOfSuccessors_def)
  from action_combination_loop_count [OF assms(2) this] obtain xs where
    xs: "length xs = prod_list ?ss - odometer_rank ?ss (replicate (length nids) 0)"
      "\<forall>x\<in>set xs. length x = length nids"
      "\<forall>combos. action_combination_loop g nids (replicate (length nids) 0) combos =
         Some (Inr (combos @ xs, last xs))"
    by blast
  have "odometer_rank ?ss (replicate (length nids) 0) = 0"
    using odometer_rank_zeros [of ?ss] by simp
  with xs show ?thesis
    by (intro exI [of _ xs]) (simp add: generateActionCombinationSets_def and_then_def)
qed

subsection \<open>The number of assignments\<close>

lemmas graph_eval = successorNodes_def getSuccessorEdges_def numberOfSuccessors_def
  getNodeData_def getNode_def mk_node_def mk_edge_def

lemmas combinator_eval = generateAgentActionAssignments_def generateActionCombinationSets_def
  generateAgentCombinationSets_def assignAgentsToActions_def and_then_def
  action_combination_loop.simps agent_combination_loop.simps assignment_loop.simps
  next_permutation_def prev_permutation_def permutation_step_def selected_def Let_def

lemma falling_fact: "k \<le> n \<Longrightarrow> falling k n * fact (n - k) = fact n"
proof (induction k arbitrary: n)
  case 0
  then show ?case by simp
next
  case (Suc k)
  then obtain m where n: "n = Suc m" by (cases n) auto
  with Suc.prems have "k \<le> m" by simp
  from Suc.IH [OF this] have ih: "falling k m * fact (m - k) = fact m" .
  have "falling (Suc k) n * fact (n - Suc k) = Suc m * (falling k m * fact (m - k))"
    by (simp add: n algebra_simps)
  also have "\<dots> = Suc m * fact m"
    by (simp only: ih)
  finally show ?case
    by (simp add: n)
qed

lemma falling_div: "k \<le> n \<Longrightarrow> falling k n = fact n div fact (n - k)"
  using falling_fact [of k n] by (metis fact_nonzero nonzero_mult_div_cancel_right)

lemma assignAgentsToActions_count:
  assumes "length ags \<le> length acts"
  shows "\<exists>ys. length ys = falling (length ags) (length acts) \<and>
     (\<forall>c. assignAgentsToActions c ags acts =
        Some (Inr (c\<lparr>agent_action_assignements := agent_action_assignements c @ ys\<rparr>)))"
proof -
  from assignment_loop_count [OF assms] obtain xs where
    "length xs = falling (length ags) (length acts)"
    "\<forall>acc. assignment_loop ags acts [0..<length acts] acc = Some (Inr (acc @ xs))"
    by blast
  then show ?thesis
    by (intro exI [of _ xs]) (simp add: assignAgentsToActions_def and_then_def)
qed

lemma for_actions_count:
  "\<forall>acts\<in>set cs. length acts = n \<Longrightarrow> length ags \<le> n \<Longrightarrow>
   \<exists>ys. length ys = length cs * falling (length ags) n \<and>
     (\<forall>c. for_actions c ags cs =
        Some (Inr (c\<lparr>agent_action_assignements := agent_action_assignements c @ ys\<rparr>)))"
proof (induction cs)
  case Nil
  then show ?case by simp
next
  case (Cons acts cs)
  then have "length ags \<le> length acts" by simp
  from assignAgentsToActions_count [OF this] Cons.prems obtain ys1 where
    ys1: "length ys1 = falling (length ags) n"
      "\<forall>c. assignAgentsToActions c ags acts =
        Some (Inr (c\<lparr>agent_action_assignements := agent_action_assignements c @ ys1\<rparr>))"
    by auto
  from Cons obtain ys2 where
    ys2: "length ys2 = length cs * falling (length ags) n"
      "\<forall>c. for_actions c ags cs =
        Some (Inr (c\<lparr>agent_action_assignements := agent_action_assignements c @ ys2\<rparr>))"
    by auto
  show ?case
    using ys1 ys2 by (intro exI [of _ "ys1 @ ys2"]) (simp add: and_then_def)
qed

lemma for_agents_count:
  "\<forall>ags\<in>set asets. length ags = k \<Longrightarrow> k \<le> n \<Longrightarrow>
   \<forall>acts\<in>set (temp_action_combinations c). length acts = n \<Longrightarrow>
   \<exists>ys. length ys = length asets * (length (temp_action_combinations c) * falling k n) \<and>
     for_agents c asets =
        Some (Inr (c\<lparr>agent_action_assignements := agent_action_assignements c @ ys\<rparr>))"
proof (induction asets arbitrary: c)
  case Nil
  then show ?case by simp
next
  case (Cons ags asets)
  let ?cs = "temp_action_combinations c"
  have "length ags \<le> n" using Cons.prems by simp
  from for_actions_count [OF Cons.prems(3) this] Cons.prems(1) obtain ys1 where
    ys1: "length ys1 = length ?cs * falling k n"
      "\<forall>c. for_actions c ags ?cs =
        Some (Inr (c\<lparr>agent_action_assignements := agent_action_assignements c @ ys1\<rparr>))"
    by auto
  let ?c1 = "c\<lparr>agent_action_assignements := agent_action_assignements c @ ys1\<rparr>"
  have "\<forall>ags\<in>set asets. length ags = k" using Cons.prems by simp
  moreover have "\<forall>acts\<in>set (temp_action_combinations ?c1). length acts = n"
    using Cons.prems by simp
  ultimately obtain ys2 where
    ys2: "length ys2 = length asets * (length (temp_action_combinations ?c1) * falling k n)"
      "for_agents ?c1 asets =
        Some (Inr (?c1\<lparr>agent_action_assignements := agent_action_assignements ?c1 @ ys2\<rparr>))"
    using Cons.IH [of ?c1] Cons.prems(2) by blast
  show ?case
    using ys1 ys2 by (intro exI [of _ "ys1 @ ys2"]) (simp add: and_then_def)
qed

lemma generateAgentCombinationSets_count:
  assumes "k \<le> length agts"
  shows "\<exists>xs. length xs = (length agts choose k) \<and> (\<forall>x\<in>set xs. length x = k) \<and>
     (\<forall>c. generateAgentCombinationSets c agts k =
        Some (Inr (c\<lparr>temp_agent_combinations := xs, temp_agent_set := last xs\<rparr>)))"
proof -
  from agent_combination_loop_count [OF assms] obtain xs where
    "length xs = (length agts choose k)" "\<forall>x\<in>set xs. length x = k"
    "agent_combination_loop agts (replicate k True @ replicate (length agts - k) False) [] =
       Some (xs, last xs)"
    by blast
  then show ?thesis
    using assms by (intro exI [of _ xs]) (simp add: generateAgentCombinationSets_def Let_def)
qed

lemma for_sizes_count:
  "\<forall>j\<in>set js. j \<le> length va \<and> j \<le> n \<Longrightarrow>
   \<forall>acts\<in>set (temp_action_combinations c). length acts = n \<Longrightarrow>
   \<exists>c'. for_sizes c va js = Some (Inr c') \<and>
     length (agent_action_assignements c') = length (agent_action_assignements c) +
       sum_list (map (\<lambda>j. (length va choose j) * (length (temp_action_combinations c) * falling j n)) js) \<and>
     temp_action_combinations c' = temp_action_combinations c"
proof (induction js arbitrary: c)
  case Nil
  then show ?case by simp
next
  case (Cons j js)
  have "j \<le> length va" "j \<le> n" using Cons.prems by simp_all
  from generateAgentCombinationSets_count [OF this(1)] obtain xs where
    xs: "length xs = (length va choose j)" "\<forall>x\<in>set xs. length x = j"
      "\<forall>c. generateAgentCombinationSets c va j =
        Some (Inr (c\<lparr>temp_agent_combinations := xs, temp_agent_set := last xs\<rparr>))"
    by blast
  let ?c1 = "c\<lparr>temp_agent_combinations := xs, temp_agent_set := last xs\<rparr>"
  have "\<forall>acts\<in>set (temp_action_combinations ?c1). length acts = n"
    using Cons.prems by simp
  from for_agents_count [OF xs(2) \<open>j \<le> n\<close> this] obtain ys where
    ys: "length ys = length xs * (length (temp_action_combinations ?c1) * falling j n)"
      "for_agents ?c1 xs =
        Some (Inr (?c1\<lparr>agent_action_assignements := agent_action_assignements ?c1 @ ys\<rparr>))"
    by blast
  let ?c2 = "?c1\<lparr>agent_action_assignements := agent_action_assignements ?c1 @ ys\<rparr>"
  have "\<forall>j\<in>set js. j \<le> length va \<and> j \<le> n" using Cons.prems by simp
  moreover have "\<forall>acts\<in>set (temp_action_combinations ?c2). length acts = n"
    using Cons.prems by simp
  ultimately obtain c' where
    c': "for_sizes ?c2 va js = Some (Inr c')"
      "length (agent_action_assignements c') = length (agent_action_assignements ?c2) +
        sum_list (map (\<lambda>j. (length va choose j) * (length (temp_action_combinations ?c2) * falling j n)) js)"
      "temp_action_combinations c' = temp_action_combinations ?c2"
    using Cons.IH [of ?c2] by blast
  have "for_sizes c va (j # js) = Some (Inr c')"
    using xs(3) ys(2) c'(1) by (simp add: and_then_def)
  then show ?case
    using c'(2,3) ys(1) xs(1) by (intro exI [of _ c']) simp
qed

text \<open>
  C1 (amended). For a frontier of \<open>n\<close> nodes, each with at least one successor (whose
  data the graph holds), and a roster of \<open>m\<close> agents, \<open>generateAgentActionAssignments\<close>
  returns, and the list it returns has
  \<open>\<Sum>k = 1..min n m. (m choose k) * (n! / (n - k)!) * \<Prod>|A\<^sub>i|\<close> assignments: for every
  set of \<open>k\<close> agents and every action tuple, one assignment per way of placing the
  \<open>k\<close> agents on \<open>k\<close> of the \<open>n\<close> positions of the tuple.
\<close>

theorem generateAgentActionAssignments_count:
  assumes "\<forall>s\<in>set frontier. successorNodes g s \<noteq> []"
    and "\<forall>s\<in>set frontier. \<forall>a\<in>set (successorNodes g s). getNodeData g a \<noteq> None"
  shows "\<exists>res c'. generateAgentActionAssignments c config g frontier = Some (Inr (res, c')) \<and>
     length res =
       (\<Sum>k = 1..min (length frontier) (length (agents config)).
          (length (agents config) choose k)
          * (fact (length frontier) div fact (length frontier - k))
          * prod_list (map (numberOfSuccessors g) frontier))"
proof -
  let ?n = "length frontier" and ?m = "length (agents config)"
  let ?va = "map (\<lambda>key_value. agent_name (snd key_value)) (agents config)"
  let ?p = "prod_list (map (numberOfSuccessors g) frontier)"
  let ?l = "min ?n ?m"
  from generateActionCombinationSets_count [OF assms] obtain xs where
    xs: "length xs = ?p" "\<forall>x\<in>set xs. length x = ?n"
      "generateActionCombinationSets c g frontier =
         Some (Inr (c\<lparr>temp_action_combinations := xs, temp_action_set := last xs\<rparr>))"
    by blast
  let ?c2 = "c\<lparr>temp_action_combinations := xs, temp_action_set := last xs,
    agent_action_assignements := []\<rparr>"
  have "\<forall>j\<in>set [1..<Suc ?l]. j \<le> length ?va \<and> j \<le> ?n" by auto
  moreover have "\<forall>acts\<in>set (temp_action_combinations ?c2). length acts = ?n"
    using xs(2) by simp
  ultimately obtain c' where
    c': "for_sizes ?c2 ?va [1..<Suc ?l] = Some (Inr c')"
      "length (agent_action_assignements c') = length (agent_action_assignements ?c2) +
        sum_list (map (\<lambda>j. (length ?va choose j) * (length (temp_action_combinations ?c2) * falling j ?n))
          [1..<Suc ?l])"
    using for_sizes_count [of "[1..<Suc ?l]" ?va ?n ?c2] by blast
  have run: "generateAgentActionAssignments c config g frontier =
      Some (Inr (agent_action_assignements c', c'))"
    using xs(3) c'(1) by (simp add: generateAgentActionAssignments_def and_then_def Let_def)
  have "length (agent_action_assignements c') =
      sum_list (map (\<lambda>j. (?m choose j) * (?p * falling j ?n)) [1..<Suc ?l])"
    using c'(2) xs(1) by simp
  also have "\<dots> = sum (\<lambda>j. (?m choose j) * (?p * falling j ?n)) (set [1..<Suc ?l])"
    by (rule sum_set_upt_conv_sum_list_nat [symmetric])
  also have "\<dots> = (\<Sum>j = 1..?l. (?m choose j) * (?p * falling j ?n))"
    by (simp only: set_upt atLeastLessThanSuc_atLeastAtMost)
  also have "\<dots> = (\<Sum>k = 1..?l. (?m choose k) * (fact ?n div fact (?n - k)) * ?p)"
    by (intro sum.cong refl) (simp add: falling_div)
  finally show ?thesis
    using run by blast
qed

lemma sum_1_2: "(\<Sum>k = 1..2. F k) = F 1 + F (2::nat)" for F :: "nat \<Rightarrow> nat"
proof -
  have "{1..2::nat} = {1, 2}" by auto
  then show ?thesis by simp
qed

lemma three_by_two_formula:
  "(\<Sum>k = 1..min (length [1, 2, 3 :: nat]) 2.
      (2 choose k) * (fact (length [1, 2, 3 :: nat]) div fact (length [1, 2, 3 :: nat] - k)) * 8)
   = (96 :: nat)"
proof -
  have l: "min (length [1, 2, 3 :: nat]) 2 = 2" "length [1, 2, 3 :: nat] = 3" by simp_all
  have f: "(fact 3 :: nat) = 6" "(fact (3 - 1) :: nat) = 2" "(fact (3 - 2) :: nat) = 1"
    by (simp_all add: fact_numeral)
  have c: "(2 choose 1) = (2::nat)" "(2 choose 2) = (1::nat)" by simp_all
  have "(\<Sum>k = 1..2. (2 choose k) * (fact 3 div fact (3 - k)) * 8) =
     (2 choose 1) * (fact 3 div fact (3 - 1)) * 8 + (2 choose 2) * (fact 3 div fact (3 - 2)) * (8::nat)"
    by (rule sum_1_2)
  also have "\<dots> = 96"
    unfolding f c by simp
  finally have "(\<Sum>k = 1..2. (2 choose k) * (fact 3 div fact (3 - k)) * 8) = (96::nat)" .
  then show ?thesis
    apply (simp only: l(1))
    apply (simp only: l(2))
    done
qed

theorem generateAgentActionAssignments_count_witness:
  "\<exists>res c'. generateAgentActionAssignments fresh (roster [''A'', ''B'']) three_by_two [1, 2, 3] =
       Some (Inr (res, c')) \<and> length res = 96"
proof -
  have a: "\<forall>s\<in>set [1, 2, 3]. successorNodes three_by_two s \<noteq> []"
    by (simp add: three_by_two_def graph_eval)
  have b: "\<forall>s\<in>set [1, 2, 3]. \<forall>a\<in>set (successorNodes three_by_two s).
      getNodeData three_by_two a \<noteq> None"
    by (simp add: three_by_two_def graph_eval)
  have p: "prod_list (map (numberOfSuccessors three_by_two) [1, 2, 3]) = 8"
    by (simp add: three_by_two_def graph_eval)
  have m: "length (agents (roster [''A'', ''B''])) = 2"
    by (simp add: roster_def)
  from generateAgentActionAssignments_count [OF a b, of fresh "roster [''A'', ''B'']"]
  obtain res c' where
    run: "generateAgentActionAssignments fresh (roster [''A'', ''B'']) three_by_two [1, 2, 3] =
       Some (Inr (res, c'))"
    and len: "length res =
       (\<Sum>k = 1..min (length [1, 2, 3 :: nat]) (length (agents (roster [''A'', ''B'']))).
          (length (agents (roster [''A'', ''B''])) choose k)
          * (fact (length [1, 2, 3 :: nat]) div fact (length [1, 2, 3 :: nat] - k))
          * prod_list (map (numberOfSuccessors three_by_two) [1, 2, 3]))"
    by blast
  from len [unfolded m p] three_by_two_formula have "length res = 96"
    by simp
  with run show ?thesis by blast
qed

text \<open>
  C1 as stated fails: with two frontier nodes of one action each and one agent, the call
  returns two assignments (the agent on the first action, the agent on the second), where
  the claimed formula \<open>\<Sum>k = 1..min n m. (m choose k) * k! * \<Prod>|A\<^sub>i|\<close> gives one.
\<close>

theorem generateAgentActionAssignments_count_counterexample:
  "map_option (map_sum id (\<lambda>r. length (fst r)))
     (generateAgentActionAssignments fresh (roster [''A'']) two_by_one [1, 2]) = Some (Inr 2)
   \<and> (\<Sum>k = 1..min (length [1, 2 :: nat]) (length (agents (roster [''A'']))).
        (length (agents (roster [''A''])) choose k) * fact k
        * prod_list (map (numberOfSuccessors two_by_one) [1, 2])) = (1 :: nat)"
  by (simp add: combinator_eval graph_eval two_by_one_def roster_def fresh_def)

text \<open>
  A frontier node without successors stops the first round of
  \<open>generateActionCombinationSets\<close>, whatever the other nodes are: the call never
  returns a list.
\<close>

lemma action_set_loop_dead_end:
  "length is = length nids \<Longrightarrow> s \<in> set nids \<Longrightarrow> successorNodes g s = [] \<Longrightarrow>
   \<exists>e. action_set_loop g nids is acc = Inl e"
proof (induction "is" nids arbitrary: acc rule: list_induct2)
  case Nil
  then show ?case by simp
next
  case (Cons ix "is" n nids)
  show ?case
  proof (cases "n = s")
    case True
    with Cons.prems show ?thesis by simp
  next
    case False
    with Cons.prems have "s \<in> set nids" by simp
    from Cons.IH [OF this Cons.prems(2)] show ?thesis
      by (auto simp: Let_def split: option.splits)
  qed
qed

lemma dead_end_never_returns:
  assumes "s \<in> set frontier" and "successorNodes g s = []"
  shows "\<exists>e. generateAgentActionAssignments c config g frontier = Some (Inl e)"
proof -
  from action_set_loop_dead_end [OF _ assms, of "replicate (length frontier) 0" "[]"]
  obtain e where "action_set_loop g frontier (replicate (length frontier) 0) [] = Inl e"
    by auto
  then have "action_combination_loop g frontier (replicate (length frontier) 0) [] = Some (Inl e)"
    by (subst action_combination_loop.simps) simp
  then show ?thesis
    by (simp add: generateAgentActionAssignments_def generateActionCombinationSets_def
        and_then_def Let_def)
qed

text \<open>
  C2. \<open>generateActionCombinationSets\<close> reads \<open>successorNodes(node_ids[i])[indices[i]]\<close>
  with index 0 before it looks at the size of the list. With the frontier \<open>[1, 2]\<close> where
  node 2 has no successor, the read is outside the (empty) vector: the call is not
  well-defined and returns no list, empty or not.
\<close>

theorem generateAgentActionAssignments_dead_end_out_of_bounds:
  "successorNodes with_leaf 2 = []
   \<and> generateAgentActionAssignments fresh (roster [''A'']) with_leaf [1, 2] = Some (Inl OutOfBounds)"
  by (simp add: combinator_eval graph_eval with_leaf_def roster_def fresh_def)

lemma and_then_rel:
  assumes "rel_option (rel_sum (=) R) r r'"
    and "\<And>x x'. R x x' \<Longrightarrow> rel_option (rel_sum (=) S) (f x) (f' x')"
  shows "rel_option (rel_sum (=) S) (and_then r f) (and_then r' f')"
proof (cases r)
  case None
  with assms(1) show ?thesis by (cases r') (simp_all add: and_then_def)
next
  case (Some a)
  with assms(1) obtain a' where r': "r' = Some a'" and aa: "rel_sum (=) R a a'"
    by (cases r') auto
  show ?thesis
  proof (cases a)
    case (Inl e)
    with aa have "a' = Inl e" by (cases a') simp_all
    with Some r' Inl show ?thesis by (simp add: and_then_def)
  next
    case (Inr x)
    with aa obtain x' where "a' = Inr x'" "R x x'" by (cases a') simp_all
    with Some r' Inr assms(2) show ?thesis by (simp add: and_then_def)
  qed
qed

lemma and_then_same:
  assumes "\<And>x. rel_option (rel_sum (=) S) (f x) (f' x)"
  shows "rel_option (rel_sum (=) S) (and_then r f) (and_then r f')"
proof -
  have "rel_option (rel_sum (=) (=)) r r"
    by (simp add: option.rel_eq sum.rel_eq)
  then show ?thesis
    by (rule and_then_rel) (simp add: assms)
qed

lemma assignAgentsToActions_core:
  "same_core c c' \<Longrightarrow>
   rel_option (rel_sum (=) same_core) (assignAgentsToActions c ags acts)
     (assignAgentsToActions c' ags acts)"
  unfolding assignAgentsToActions_def
  by (auto simp: same_core_def intro!: and_then_same)

lemma for_actions_core:
  "same_core c c' \<Longrightarrow>
   rel_option (rel_sum (=) same_core) (for_actions c ags cs) (for_actions c' ags cs)"
proof (induction cs arbitrary: c c')
  case Nil
  then show ?case by simp
next
  case (Cons acts cs)
  show ?case
    unfolding for_actions.simps
    by (rule and_then_rel [OF assignAgentsToActions_core [OF Cons.prems]]) (rule Cons.IH)
qed

lemma for_agents_core:
  "same_core c c' \<Longrightarrow>
   rel_option (rel_sum (=) same_core) (for_agents c asets) (for_agents c' asets)"
proof (induction asets arbitrary: c c')
  case Nil
  then show ?case by simp
next
  case (Cons ags asets)
  have "temp_action_combinations c' = temp_action_combinations c"
    using Cons.prems by (simp add: same_core_def)
  then show ?case
    unfolding for_agents.simps
    using and_then_rel [OF for_actions_core [OF Cons.prems]] Cons.IH by metis
qed

lemma generateAgentCombinationSets_core:
  "same_core c c' \<Longrightarrow>
   rel_option (rel_sum (=)
       (\<lambda>d d'. same_core d d' \<and> temp_agent_combinations d = temp_agent_combinations d'))
     (generateAgentCombinationSets c va j) (generateAgentCombinationSets c' va j)"
  by (auto simp: generateAgentCombinationSets_def Let_def same_core_def split: option.splits)

lemma for_sizes_core:
  "same_core c c' \<Longrightarrow>
   rel_option (rel_sum (=) same_core) (for_sizes c va js) (for_sizes c' va js)"
proof (induction js arbitrary: c c')
  case Nil
  then show ?case by simp
next
  case (Cons j js)
  show ?case
    unfolding for_sizes.simps
  proof (rule and_then_rel [OF generateAgentCombinationSets_core [OF Cons.prems]])
    fix d d'
    assume "same_core d d' \<and> temp_agent_combinations d = temp_agent_combinations d'"
    then have sc: "same_core d d'" and eq: "temp_agent_combinations d' = temp_agent_combinations d"
      by simp_all
    show "rel_option (rel_sum (=) same_core)
        (and_then (for_agents d (temp_agent_combinations d)) (\<lambda>c2. for_sizes c2 va js))
        (and_then (for_agents d' (temp_agent_combinations d')) (\<lambda>c2. for_sizes c2 va js))"
      unfolding eq
      by (rule and_then_rel [OF for_agents_core [OF sc]]) (rule Cons.IH)
  qed
qed

lemma generateActionCombinationSets_core:
  "rel_option (rel_sum (=) (\<lambda>d d'. temp_action_combinations d = temp_action_combinations d'))
     (generateActionCombinationSets c g nids) (generateActionCombinationSets c' g nids)"
  unfolding generateActionCombinationSets_def
  by (rule and_then_same) simp

lemma generateAgentActionAssignments_core:
  "rel_option (rel_sum (=) (\<lambda>p p'. fst p = fst p'))
     (generateAgentActionAssignments c config g frontier)
     (generateAgentActionAssignments c' config g frontier)"
  unfolding generateAgentActionAssignments_def Let_def
proof (rule and_then_rel [OF generateActionCombinationSets_core])
  fix d d' :: Combinator
  assume "temp_action_combinations d = temp_action_combinations d'"
  then have sc: "same_core (d\<lparr>agent_action_assignements := []\<rparr>) (d'\<lparr>agent_action_assignements := []\<rparr>)"
    by (simp add: same_core_def)
  show "rel_option (rel_sum (=) (\<lambda>p p'. fst p = fst p'))
      (and_then (for_sizes (d\<lparr>agent_action_assignements := []\<rparr>)
           (map (\<lambda>key_value. agent_name (snd key_value)) (agents config))
           [1..<Suc (min (length frontier) (length (agents config)))])
         (\<lambda>c3. Some (Inr (agent_action_assignements c3, c3))))
      (and_then (for_sizes (d'\<lparr>agent_action_assignements := []\<rparr>)
           (map (\<lambda>key_value. agent_name (snd key_value)) (agents config))
           [1..<Suc (min (length frontier) (length (agents config)))])
         (\<lambda>c3. Some (Inr (agent_action_assignements c3, c3))))"
    by (rule and_then_rel [OF for_sizes_core [OF sc]]) (simp add: same_core_def)
qed

text \<open>
  C9. What \<open>generateAgentActionAssignments\<close> returns (a list of assignments, an error,
  or nothing) is the same from any two states \<open>c\<close> and \<open>c'\<close> of the combinator, whatever
  earlier calls left in its members, for the same configuration, graph and frontier.
\<close>

theorem generateAgentActionAssignments_history_free:
  "map_option (map_sum id fst) (generateAgentActionAssignments c config g frontier) =
   map_option (map_sum id fst) (generateAgentActionAssignments c' config g frontier)"
proof -
  have "rel_option (rel_sum (=) (\<lambda>p p'. fst p = fst p')) r r' \<Longrightarrow>
      map_option (map_sum id fst) r = map_option (map_sum id fst) r'"
    for r r' :: "(AgentActionAssignment list list \<times> Combinator) outcome"
    by (cases r; cases r') (auto elim: rel_sum.cases)
  then show ?thesis
    using generateAgentActionAssignments_core by blast
qed

lemma history_example:
  "map_option (map_sum id fst) (generateAgentActionAssignments used (roster [''A'']) two_by_one [1, 2])
     = Some (Inr [[\<lparr>agent = ''A'', action = ''a1'', action_node_id = 3\<rparr>],
                  [\<lparr>agent = ''A'', action = ''a2'', action_node_id = 4\<rparr>]])"
  by (simp add: combinator_eval graph_eval two_by_one_def roster_def used_def)

end
